theory Spec2Isabelle
  imports Main "HOL-Library.Word"
begin

unbundle bit_operations_syntax

section \<open>Go primitives used by the ssd1306 package\<close>

text \<open>
  The driver is \<^verbatim>\<open>src/ssd1306/ssd1306.go\<close> (the revision with \<^verbatim>\<open>int\<close> coordinates, the
  one that has \<^verbatim>\<open>Line\<close>, \<open>Circle\<close>, \<open>Rectangle\<close> and \<open>Char\<close>).  A value of Go's \<^verbatim>\<open>int\<close> is an
  \<open>int\<close> here, and \<^verbatim>\<open>int\<close> is taken to be 64 bits wide.  In \<^verbatim>\<open>Line\<close>, in \<open>Char_int64\<close> and in
  \<^verbatim>\<open>New\<close> the wrap-around of sums and products is written out (\<open>wrap64\<close>), and so is the
  rounding of \<^verbatim>\<open>float64\<close> (\<open>f64\<close>).  \<^verbatim>\<open>byte\<close> is \<open>8 word\<close>.  Go's \<^verbatim>\<open>/\<close> and \<^verbatim>\<open>%\<close> truncate
  towards zero, unlike \<open>div\<close> and \<open>mod\<close>.
\<close>

type_synonym byte = "8 word"

definition go_quo :: "int \<Rightarrow> int \<Rightarrow> int" where
  "go_quo a b = sgn a * sgn b * (\<bar>a\<bar> div \<bar>b\<bar>)"

definition go_rem :: "int \<Rightarrow> int \<Rightarrow> int" where
  "go_rem a b = a - b * go_quo a b"

text \<open>\<^verbatim>\<open>uint(v)\<close>: conversion of an \<^verbatim>\<open>int\<close> to the unsigned type of the same size.\<close>

definition go_uint :: "int \<Rightarrow> int" where
  "go_uint v = v mod 2 ^ 64"

text \<open>The result of an \<^verbatim>\<open>int\<close> addition, subtraction or multiplication: two's complement, 64 bits.\<close>

definition wrap64 :: "int \<Rightarrow> int" where
  "wrap64 v = (v + 2 ^ 63) mod 2 ^ 64 - 2 ^ 63"

text \<open>
  \<^verbatim>\<open>float64\<close>.  Every \<^verbatim>\<open>float64\<close> value in this package is the conversion of an \<^verbatim>\<open>int\<close>, or
  a sum, difference or double of such values, so it is an integer: a value is the integer
  it holds, and \<open>f64\<close> rounds the exact result of an operation to the nearest number with
  a 53-bit significand, ties to even (no result here is large enough to overflow).
  \<open>f64_shift a\<close> is the number of low bits of \<open>a\<close> that do not fit.
\<close>

function f64_shift :: "int \<Rightarrow> nat" where
  "f64_shift a = (if a < 2 ^ 53 then 0 else Suc (f64_shift (a div 2)))"
  by pat_completeness auto
termination
  by (relation "measure nat") auto

declare f64_shift.simps [simp del]

definition f64 :: "int \<Rightarrow> int" where
  "f64 v =
     (let a = \<bar>v\<bar>;
          e = f64_shift a;
          q = a div 2 ^ e;
          r = a mod 2 ^ e;
          q' = (if 2 * r > 2 ^ e \<or> (2 * r = 2 ^ e \<and> odd q) then q + 1 else q)
      in sgn v * (q' * 2 ^ e))"

text \<open>
  \<^verbatim>\<open>b << n\<close> and \<^verbatim>\<open>b >> n\<close> on a byte with an unsigned count: a count of 8 or more gives 0,
  it never faults.
\<close>

definition shl :: "byte \<Rightarrow> int \<Rightarrow> byte" where
  "shl b n = (if 8 \<le> n then 0 else push_bit (nat n) b)"

definition shr :: "byte \<Rightarrow> int \<Rightarrow> byte" where
  "shr b n = (if 8 \<le> n then 0 else drop_bit (nat n) b)"

text \<open>Run-time panics of the Go code are values.\<close>

datatype fault = IndexOutOfRange | SliceBoundsOutOfRange

text \<open>\<^verbatim>\<open>color.Gray16\<close> is a struct of one \<^verbatim>\<open>uint16\<close>; \<^verbatim>\<open>color.White\<close> is \<^verbatim>\<open>Gray16{0xffff}\<close>.\<close>

type_synonym Gray16 = "16 word"

definition White :: Gray16 where
  "White = 0xffff"

definition Black :: Gray16 where
  "Black = 0"

section \<open>The display\<close>

definition IFACE_SPI :: int where
  "IFACE_SPI = 0"

definition IFACE_I2C :: int where
  "IFACE_I2C = 1"

text \<open>
  \<^verbatim>\<open>type SSD1306 struct\<close>.  The two handles \<^verbatim>\<open>rst\<close> and \<^verbatim>\<open>i2cbus\<close> stand for the outside
  world; calls through them are recorded in a trace (below).
\<close>

record SSD1306 =
  iface :: int
  width :: int
  height :: int
  buf :: "byte list"

text \<open>\<^verbatim>\<open>buf[i] |= m\<close> (white) or \<^verbatim>\<open>buf[i] &^= m\<close> (any other colour), with Go's index check.\<close>

definition apply_mask :: "Gray16 \<Rightarrow> byte \<Rightarrow> byte \<Rightarrow> byte" where
  "apply_mask c m v = (if c = White then v OR m else v AND NOT m)"

definition buf_modify :: "SSD1306 \<Rightarrow> int \<Rightarrow> (byte \<Rightarrow> byte) \<Rightarrow> fault + SSD1306" where
  "buf_modify d i f =
     (if 0 \<le> i \<and> i < int (length (buf d))
      then Inr (d\<lparr>buf := (buf d)[nat i := f (buf d ! nat i)]\<rparr>)
      else Inl IndexOutOfRange)"

text \<open>\<^verbatim>\<open>func (ssd1306 *SSD1306) Point(x, y int, c color.Gray16)\<close>\<close>

definition Point :: "SSD1306 \<Rightarrow> int \<Rightarrow> int \<Rightarrow> Gray16 \<Rightarrow> fault + SSD1306" where
  "Point d x y c =
     (if x \<ge> width d \<or> y \<ge> height d \<or> x < 0 \<or> y < 0 then Inr d
      else let element = width d * go_quo y 8 + x
           in buf_modify d element (apply_mask c (shl 1 (go_rem (go_uint y) 8))))"

text \<open>
  \<^verbatim>\<open>func (ssd1306 *SSD1306) Line(x0, y0, x1, y1 int, c color.Gray16)\<close>.  The variables
  \<^verbatim>\<open>dx\<close>, \<open>dy\<close>, \<open>err\<close>, \<open>e2\<close> are \<^verbatim>\<open>float64\<close>: the conversions \<^verbatim>\<open>float64(x1)\<close> and every
  operation on them round (\<open>f64\<close>); \<^verbatim>\<open>x0 += sx\<close> and \<^verbatim>\<open>y0 += sy\<close> are \<^verbatim>\<open>int\<close> additions.  The
  loop has no bound of its own: not returning is the value \<open>None\<close>.
\<close>

partial_function (option) line_loop ::
  "SSD1306 \<Rightarrow> Gray16 \<Rightarrow> int \<Rightarrow> int \<Rightarrow> int \<Rightarrow> int \<Rightarrow> int \<Rightarrow> int \<Rightarrow> int \<Rightarrow> int \<Rightarrow> int
     \<Rightarrow> (fault + SSD1306) option" where
  "line_loop d c dx dy sx sy x1 y1 err x0 y0 =
     (case Point d x0 y0 c of
        Inl e \<Rightarrow> Some (Inl e)
      | Inr d1 \<Rightarrow>
          if x0 = x1 \<and> y0 = y1 then Some (Inr d1)
          else let e2 = f64 (2 * err);
                   err' = (if e2 > - dy then f64 (err - dy) else err);
                   x0' = (if e2 > - dy then wrap64 (x0 + sx) else x0)
               in if x0' = x1 \<and> y0 = y1 then Some (Point d1 x0' y0 c)
                  else let err'' = (if e2 < dx then f64 (err' + dx) else err');
                           y0' = (if e2 < dx then wrap64 (y0 + sy) else y0)
                       in line_loop d1 c dx dy sx sy x1 y1 err'' x0' y0')"

declare line_loop.simps [code]

definition Line :: "SSD1306 \<Rightarrow> int \<Rightarrow> int \<Rightarrow> int \<Rightarrow> int \<Rightarrow> Gray16 \<Rightarrow> (fault + SSD1306) option" where
  "Line d x0 y0 x1 y1 c =
     (let dx = \<bar>f64 (f64 x1 - f64 x0)\<bar>;
          dy = \<bar>f64 (f64 y1 - f64 y0)\<bar>;
          sx = (if x0 < x1 then 1 else - 1);
          sy = (if y0 < y1 then 1 else - 1);
          err = f64 (dx - dy)
      in line_loop d c dx dy sx sy x1 y1 err x0 y0)"

text \<open>A run of \<^verbatim>\<open>Point\<close> calls, one after the other, as \<^verbatim>\<open>Circle\<close> has them.\<close>

fun points :: "SSD1306 \<Rightarrow> (int \<times> int) list \<Rightarrow> Gray16 \<Rightarrow> fault + SSD1306" where
  "points d [] c = Inr d"
| "points d ((x, y) # ps) c =
     (case Point d x y c of Inl e \<Rightarrow> Inl e | Inr d' \<Rightarrow> points d' ps c)"

text \<open>\<^verbatim>\<open>func (ssd1306 *SSD1306) Circle(x0, y0, radius int, c color.Gray16)\<close>\<close>

function circle_loop ::
  "SSD1306 \<Rightarrow> Gray16 \<Rightarrow> int \<Rightarrow> int \<Rightarrow> int \<Rightarrow> int \<Rightarrow> int \<Rightarrow> int \<Rightarrow> int \<Rightarrow> fault + SSD1306" where
  "circle_loop d c x0 y0 f ddF_x ddF_y x y =
     (if x < y then
        let y' = (if f \<ge> 0 then y - 1 else y);
            ddF_y' = (if f \<ge> 0 then ddF_y + 2 else ddF_y);
            f' = (if f \<ge> 0 then f + ddF_y' else f);
            x' = x + 1;
            ddF_x' = ddF_x + 2;
            f'' = f' + ddF_x'
        in case points d
                  [(x0 + x', y0 + y'), (x0 - x', y0 + y'), (x0 + x', y0 - y'), (x0 - x', y0 - y'),
                   (x0 + y', y0 + x'), (x0 - y', y0 + x'), (x0 + y', y0 - x'), (x0 - y', y0 - x')] c of
             Inl e \<Rightarrow> Inl e
           | Inr d' \<Rightarrow> circle_loop d' c x0 y0 f'' ddF_x' ddF_y' x' y'
      else Inr d)"
  by pat_completeness auto
termination
  by (relation "measure (\<lambda>(d, c, x0, y0, f, ddF_x, ddF_y, x, y). nat (y - x))") auto

declare circle_loop.simps [simp del]

definition Circle :: "SSD1306 \<Rightarrow> int \<Rightarrow> int \<Rightarrow> int \<Rightarrow> Gray16 \<Rightarrow> fault + SSD1306" where
  "Circle d x0 y0 radius c =
     (case points d [(x0, y0 + radius), (x0, y0 - radius), (x0 + radius, y0), (x0 - radius, y0)] c of
        Inl e \<Rightarrow> Inl e
      | Inr d' \<Rightarrow> circle_loop d' c x0 y0 (1 - radius) 1 (- 2 * radius) 0 radius)"

text \<open>
  The inner loop of \<^verbatim>\<open>Rectangle\<close>'s page path:
  \<^verbatim>\<open>for x := x0; x <= x1; x++ { element = ssd1306.width*(y / 8) + x; buf[element] op= b }\<close>
\<close>

function fill_span :: "SSD1306 \<Rightarrow> Gray16 \<Rightarrow> byte \<Rightarrow> int \<Rightarrow> int \<Rightarrow> int \<Rightarrow> fault + SSD1306" where
  "fill_span d c b y x x1 =
     (if x \<le> x1 then
        case buf_modify d (width d * go_quo y 8 + x) (apply_mask c b) of
          Inl e \<Rightarrow> Inl e
        | Inr d' \<Rightarrow> fill_span d' c b y (x + 1) x1
      else Inr d)"
  by pat_completeness auto
termination
  by (relation "measure (\<lambda>(d, c, b, y, x, x1). nat (x1 + 1 - x))") auto

declare fill_span.simps [simp del]

text \<open>\<^verbatim>\<open>for ; y0 / 8 < y1 / 8; y0 = (y0 / 8 * 8 + 8) { b = ^byte(0); ... }\<close>\<close>

function fill_pages :: "SSD1306 \<Rightarrow> Gray16 \<Rightarrow> int \<Rightarrow> int \<Rightarrow> int \<Rightarrow> int \<Rightarrow> fault + SSD1306" where
  "fill_pages d c x0 x1 y0 y1 =
     (if go_quo y0 8 < go_quo y1 8 then
        case fill_span d c (NOT 0) y0 x0 x1 of
          Inl e \<Rightarrow> Inl e
        | Inr d' \<Rightarrow> fill_pages d' c x0 x1 (go_quo y0 8 * 8 + 8) y1
      else Inr d)"
  by pat_completeness auto
termination
proof (relation "measure (\<lambda>(d, c, x0, x1, y0, y1). nat (go_quo y1 8 - go_quo y0 8))")
  show "wf (measure (\<lambda>(d, c, x0, x1, y0, y1). nat (go_quo y1 8 - go_quo y0 8)))"
    by simp
next
  fix d :: SSD1306 and c :: Gray16 and x0 x1 y0 y1 :: int and d' :: SSD1306
  assume lt: "go_quo y0 8 < go_quo y1 8"
  have "go_quo (go_quo y0 8 * 8 + 8) 8 = go_quo y0 8 + 1"
    by (simp add: go_quo_def sgn_if abs_if)
  with lt show "((d', c, x0, x1, go_quo y0 8 * 8 + 8, y1), (d, c, x0, x1, y0, y1))
      \<in> measure (\<lambda>(d, c, x0, x1, y0, y1). nat (go_quo y1 8 - go_quo y0 8))"
    by simp
qed

declare fill_pages.simps [simp del]

text \<open>The default branch: \<^verbatim>\<open>for y := y0; y <= y1; y++ { ssd1306.Line(x0, y, x1, y, c) }\<close>\<close>

function rect_rows ::
  "SSD1306 \<Rightarrow> Gray16 \<Rightarrow> int \<Rightarrow> int \<Rightarrow> int \<Rightarrow> int \<Rightarrow> (fault + SSD1306) option" where
  "rect_rows d c x0 x1 y y1 =
     (if y \<le> y1 then
        case Line d x0 y x1 y c of
          None \<Rightarrow> None
        | Some (Inl e) \<Rightarrow> Some (Inl e)
        | Some (Inr d') \<Rightarrow> rect_rows d' c x0 x1 (y + 1) y1
      else Some (Inr d))"
  by pat_completeness auto
termination
  by (relation "measure (\<lambda>(d, c, x0, x1, y, y1). nat (y1 + 1 - y))") auto

declare rect_rows.simps [simp del]

text \<open>\<^verbatim>\<open>func (ssd1306 *SSD1306) Rectangle(x0, y0, x1, y1 int, c color.Gray16)\<close>\<close>

definition Rectangle ::
  "SSD1306 \<Rightarrow> int \<Rightarrow> int \<Rightarrow> int \<Rightarrow> int \<Rightarrow> Gray16 \<Rightarrow> (fault + SSD1306) option" where
  "Rectangle d x0 y0 x1 y1 c =
     (if x0 > x1 \<or> y0 > y1 then Some (Inr d)
      else if x0 = x1 \<or> y0 = y1 then Line d x0 y0 x1 y1 c
      else if go_quo y0 8 < go_quo y1 8 then
        Some (case fill_span d c (shl (NOT 0) (go_uint (go_rem y0 8 - 1))) y0 x0 x1 of
                Inl e \<Rightarrow> Inl e
              | Inr d1 \<Rightarrow>
                  (case fill_pages d1 c x0 x1 y0 y1 of
                     Inl e \<Rightarrow> Inl e
                   | Inr d2 \<Rightarrow>
                       fill_span d2 c (shr (NOT 0) (go_uint (7 - go_rem y1 8))) y1 x0 x1))
      else rect_rows d c x0 x1 y0 y1)"

text \<open>
  The naive fill the specification compares \<^verbatim>\<open>Rectangle\<close> with: a horizontal
  \<^verbatim>\<open>Line(x0, y, x1, y, color)\<close> for every \<open>y\<close> from \<open>y0\<close> to \<open>y1\<close>.
\<close>

definition Rectangle_by_rows ::
  "SSD1306 \<Rightarrow> int \<Rightarrow> int \<Rightarrow> int \<Rightarrow> int \<Rightarrow> Gray16 \<Rightarrow> (fault + SSD1306) option" where
  "Rectangle_by_rows d x0 y0 x1 y1 c = rect_rows d c x0 x1 y0 y1"

section \<open>Glyphs\<close>

text \<open>
  The glyph table \<^verbatim>\<open>font\<close> is declared in a file of the package that is not part of the
  sources at hand; it is a parameter here.  \<^verbatim>\<open>font[uint((5*int(r))+i)]\<close> is an indexed
  read with Go's index check.
\<close>

definition font_at :: "byte list \<Rightarrow> int \<Rightarrow> fault + byte" where
  "font_at font i =
     (if 0 \<le> i \<and> i < int (length font) then Inr (font ! nat i) else Inl IndexOutOfRange)"

text \<open>
  Both loops of \<^verbatim>\<open>Char\<close>:
  \<^verbatim>\<open>for i := 0; i < 5 && x + i < ssd1306.width; i++ { buf[base+i] op= shift(font[...]) }\<close>
  where \<open>sh\<close> is the shift applied to the glyph column.
\<close>

function char_loop ::
  "byte list \<Rightarrow> SSD1306 \<Rightarrow> Gray16 \<Rightarrow> int \<Rightarrow> (byte \<Rightarrow> byte) \<Rightarrow> int \<Rightarrow> int \<Rightarrow> int
     \<Rightarrow> fault + SSD1306" where
  "char_loop font d c r sh base x i =
     (if i < 5 \<and> x + i < width d then
        case font_at font (go_uint (5 * r + i)) of
          Inl e \<Rightarrow> Inl e
        | Inr g \<Rightarrow>
            (case buf_modify d (base + i) (apply_mask c (sh g)) of
               Inl e \<Rightarrow> Inl e
             | Inr d' \<Rightarrow> char_loop font d' c r sh base x (i + 1))
      else Inr d)"
  by pat_completeness auto
termination
  by (relation "measure (\<lambda>(font, d, c, r, sh, base, x, i). nat (5 - i))") auto

declare char_loop.simps [simp del]

text \<open>
  \<^verbatim>\<open>func (ssd1306 *SSD1306) Char(x, y int, c color.Gray16, r rune) int\<close>.
  The result is the returned \<^verbatim>\<open>int\<close> with the display.  The indices are computed over the
  integers here, which is what the code computes as long as none of them leaves the range
  of \<^verbatim>\<open>int\<close>, as for every anchor on the panel; \<open>Char_int64\<close> below is the same function
  with the wrap-around written out.
\<close>

definition Char ::
  "byte list \<Rightarrow> SSD1306 \<Rightarrow> int \<Rightarrow> int \<Rightarrow> Gray16 \<Rightarrow> int \<Rightarrow> fault + (int \<times> SSD1306)" where
  "Char font d x y c r =
     (let bufi = width d * go_quo y 8 + x;
          bufiup = bufi - width d
      in if x \<ge> width d \<or> y \<ge> height d then Inr (- 1, d)
         else if r < 0 \<or> r > 127 then Inr (- 1, d)
         else
           case (if bufi < go_quo (width d * height d) 8 \<and> bufi \<ge> 0
                 then char_loop font d c r (\<lambda>g. shr g (go_uint (8 - go_rem y 8))) bufi x 0
                 else Inr d) of
             Inl e \<Rightarrow> Inl e
           | Inr d1 \<Rightarrow>
               (case (if bufiup < go_quo (width d1 * height d1) 8 \<and> bufiup \<ge> 0
                      then char_loop font d1 c r (\<lambda>g. shl g (go_uint (go_rem y 8))) bufiup x 0
                      else Inr d1) of
                  Inl e \<Rightarrow> Inl e
                | Inr d2 \<Rightarrow> Inr (0, d2)))"




section \<open>The outside world: reset pin and bus\<close>

text \<open>
  The calls the driver makes on its two handles (\<^verbatim>\<open>gpio.GPIO\<close> and \<^verbatim>\<open>i2c.Bus\<close>) and
  \<^verbatim>\<open>time.Sleep\<close> are recorded, in order, in a trace.  Whether a call fails is decided by the
  environment from the calls made so far and the call itself; an error is a Go \<^verbatim>\<open>error\<close>
  value, \<open>None\<close> is \<^verbatim>\<open>nil\<close>.
\<close>

type_synonym go_error = string

datatype call =
    GpioExport int
  | GpioSetDirection string
  | GpioSetValue int
  | GpioUnexport
  | I2CNewBus byte byte
  | Sleep_ms nat
  | WriteI2C byte "byte list"

type_synonym world = "call list \<Rightarrow> call \<Rightarrow> go_error option"

definition io :: "world \<Rightarrow> call \<Rightarrow> call list \<Rightarrow> go_error option \<times> call list" where
  "io w c tr = (w tr c, tr @ [c])"

text \<open>
  \<^verbatim>\<open>func New(rstpin, iface int, addr, bus byte, width, height int)\<close>.  On an error the
  struct is returned as far as it was filled in; the zero value of every field is 0 or
  \<^verbatim>\<open>nil\<close>.  The product \<^verbatim>\<open>width*height\<close> wraps; \<^verbatim>\<open>make\<close> panics on a negative length.
\<close>

datatype new_fault = MakeSliceLenOutOfRange

definition New ::
  "world \<Rightarrow> int \<Rightarrow> int \<Rightarrow> byte \<Rightarrow> byte \<Rightarrow> int \<Rightarrow> int \<Rightarrow> call list
     \<Rightarrow> (new_fault + SSD1306 \<times> go_error option) \<times> call list" where
  "New w rstpin ifc addr bus wd ht tr =
     (let zero = \<lparr>iface = 0, width = 0, height = 0, buf = []\<rparr>
      in case io w (GpioExport rstpin) tr of
           (Some e, tr1) \<Rightarrow> (Inr (zero, Some e), tr1)
         | (None, tr1) \<Rightarrow>
             (let d1 = zero\<lparr>iface := ifc\<rparr>;
                  (r, tr2) = (if ifc = IFACE_I2C then io w (I2CNewBus addr bus) tr1 else (None, tr1))
              in case r of
                   Some e \<Rightarrow> (Inr (d1, Some e), tr2)
                 | None \<Rightarrow>
                     (if go_quo (wrap64 (wd * ht)) 8 < 0 then (Inl MakeSliceLenOutOfRange, tr2)
                      else (Inr (d1\<lparr>width := wd, height := ht,
                                     buf := replicate (nat (go_quo (wrap64 (wd * ht)) 8)) 0\<rparr>,
                                 None), tr2))))"

text \<open>\<^verbatim>\<open>func (ssd1306 *SSD1306) WriteCmd(cmd []byte) (err error)\<close>\<close>

definition WriteCmd ::
  "world \<Rightarrow> SSD1306 \<Rightarrow> byte list \<Rightarrow> call list \<Rightarrow> go_error option \<times> SSD1306 \<times> call list" where
  "WriteCmd w d cmd tr =
     (if iface d = IFACE_I2C then
        let dc = (if length cmd = 1 then 0x80 else 0x00);
            (err, tr') = io w (WriteI2C dc cmd) tr
        in (err, d, tr')
      else (None, d, tr))"

text \<open>\<^verbatim>\<open>func (ssd1306 *SSD1306) WriteData(data []byte) (err error)\<close>\<close>

definition WriteData ::
  "world \<Rightarrow> SSD1306 \<Rightarrow> byte list \<Rightarrow> call list \<Rightarrow> go_error option \<times> SSD1306 \<times> call list" where
  "WriteData w d data tr =
     (if iface d = IFACE_I2C then
        let dc = (if length data = 1 then 0xc0 else 0x40);
            (err, tr') = io w (WriteI2C dc data) tr
        in (err, d, tr')
      else (None, d, tr))"

text \<open>\<^verbatim>\<open>func (ssd1306 *SSD1306) Close()\<close>: both results are dropped.\<close>

definition Close :: "world \<Rightarrow> SSD1306 \<Rightarrow> call list \<Rightarrow> SSD1306 \<times> call list" where
  "Close w d tr =
     (let (e1, d1, tr1) = WriteData w d [0xae] tr;
          (e2, tr2) = io w GpioUnexport tr1
      in (d1, tr2))"

text \<open>The opcodes of the configuration sequence, as the package names them.\<close>

definition DISP_OFF :: byte where "DISP_OFF = 0xae"
definition DISP_ON :: byte where "DISP_ON = 0xaf"
definition START_LINE :: byte where "START_LINE = 0x40"
definition ADDRESS_MODE :: byte where "ADDRESS_MODE = 0x20"
definition ADDRESS_MODE_HORI :: byte where "ADDRESS_MODE_HORI = 0x00"
definition CONTRAST :: byte where "CONTRAST = 0x81"
definition HORI_MIRROR :: byte where "HORI_MIRROR = 0xa1"
definition INVERSE_OFF :: byte where "INVERSE_OFF = 0xa6"
definition MUX_RATIO :: byte where "MUX_RATIO = 0xa8"
definition VERT_SHIFT :: byte where "VERT_SHIFT = 0xd3"
definition VERT_MIRROR :: byte where "VERT_MIRROR = 0xc8"
definition CLOCK_FREQ :: byte where "CLOCK_FREQ = 0xd5"
definition PRECHARGE :: byte where "PRECHARGE = 0xd9"
definition COM_CONFIG :: byte where "COM_CONFIG = 0xda"
definition COM_CONFIG2 :: byte where "COM_CONFIG2 = 0x02"
definition COM_CONFIG2_ALT :: byte where "COM_CONFIG2_ALT = 0x10"
definition VCOMH_DESELECT_LEVEL :: byte where "VCOMH_DESELECT_LEVEL = 0xdb"
definition CHARGE_PUMP :: byte where "CHARGE_PUMP = 0x8d"
definition CHARGE_PUMP_ON :: byte where "CHARGE_PUMP_ON = 0x14"

definition setup_sequence :: "byte list" where
  "setup_sequence =
     [DISP_OFF,
      START_LINE OR 0x00,
      ADDRESS_MODE, ADDRESS_MODE_HORI,
      CONTRAST, 0xcf,
      HORI_MIRROR,
      INVERSE_OFF,
      MUX_RATIO, 0x3f,
      VERT_SHIFT, 0x00,
      VERT_MIRROR,
      CLOCK_FREQ, 0xf0,
      PRECHARGE, 0xf1,
      COM_CONFIG, COM_CONFIG2 OR COM_CONFIG2_ALT,
      VCOMH_DESELECT_LEVEL, 0x40,
      CHARGE_PUMP, CHARGE_PUMP_ON,
      DISP_ON]"

text \<open>
  \<^verbatim>\<open>func (ssd1306 *SSD1306) Setup() (err error)\<close>.  The three pin calls assign \<^verbatim>\<open>err\<close> and
  return on an error; the call of \<^verbatim>\<open>WriteCmd\<close> is a statement of its own, its result is
  not assigned, and the final \<^verbatim>\<open>return\<close> gives back \<^verbatim>\<open>err\<close> as the last pin call left it.
\<close>

definition Setup ::
  "world \<Rightarrow> SSD1306 \<Rightarrow> call list \<Rightarrow> go_error option \<times> SSD1306 \<times> call list" where
  "Setup w d tr =
     (case io w (GpioSetDirection ''out'') tr of
        (Some e, tr1) \<Rightarrow> (Some e, d, tr1)
      | (None, tr1) \<Rightarrow>
          (case io w (GpioSetValue 0) tr1 of
             (Some e, tr2) \<Rightarrow> (Some e, d, tr2)
           | (None, tr2) \<Rightarrow>
               (case io w (GpioSetValue 1) (tr2 @ [Sleep_ms 3]) of
                  (Some e, tr3) \<Rightarrow> (Some e, d, tr3)
                | (None, tr3) \<Rightarrow>
                    (let (dropped, d', tr4) = WriteCmd w d setup_sequence tr3
                     in (None, d', tr4)))))"

text \<open>
  \<^verbatim>\<open>buf[i:j]\<close> on a slice made by \<^verbatim>\<open>make([]byte, n)\<close>, whose capacity is its length:
  it panics unless \<open>0 \<le> i \<le> j \<le> n\<close>.
\<close>

definition go_slice :: "byte list \<Rightarrow> int \<Rightarrow> int \<Rightarrow> fault + byte list" where
  "go_slice b i j =
     (if 0 \<le> i \<and> i \<le> j \<and> j \<le> int (length b)
      then Inr (take (nat (j - i)) (drop (nat i) b))
      else Inl SliceBoundsOutOfRange)"

text \<open>
  \<^verbatim>\<open>func (ssd1306 *SSD1306) Draw() (err error)\<close>, the loop
  \<^verbatim>\<open>for i := 0; i < len(ssd1306.buf); i += 32\<close> first.
\<close>

function draw_loop ::
  "world \<Rightarrow> SSD1306 \<Rightarrow> call list \<Rightarrow> int \<Rightarrow> (fault + go_error option) \<times> SSD1306 \<times> call list" where
  "draw_loop w d tr i =
     (if i < int (length (buf d)) then
        case go_slice (buf d) i (i + 32) of
          Inl f \<Rightarrow> (Inl f, d, tr)
        | Inr chunk \<Rightarrow>
            (case WriteData w d chunk tr of
               (Some e, d', tr') \<Rightarrow> (Inr (Some e), d', tr')
             | (None, d', tr') \<Rightarrow> draw_loop w d' tr' (i + 32))
      else (Inr None, d, tr))"
  by pat_completeness auto
termination
  by (relation "measure (\<lambda>(w, d, tr, i). nat (int (length (buf d)) - i))")
    (auto simp: WriteData_def Let_def split: if_splits prod.splits)

declare draw_loop.simps [simp del]

definition Draw ::
  "world \<Rightarrow> SSD1306 \<Rightarrow> call list \<Rightarrow> (fault + go_error option) \<times> SSD1306 \<times> call list" where
  "Draw w d tr = (if iface d = IFACE_I2C then draw_loop w d tr 0 else (Inr None, d, tr))"

section \<open>Well-formed displays, pixels and concrete inputs\<close>

text \<open>
  The invariant of the data model: the height is a whole number of 8-pixel pages and the
  buffer holds one byte per column and page.
\<close>

definition wf_display :: "SSD1306 \<Rightarrow> bool" where
  "wf_display d \<longleftrightarrow>
     0 \<le> width d \<and> 0 \<le> height d \<and> height d mod 8 = 0 \<and>
     int (length (buf d)) = width d * (height d div 8)"

definition in_range :: "SSD1306 \<Rightarrow> int \<Rightarrow> int \<Rightarrow> bool" where
  "in_range d x y \<longleftrightarrow> 0 \<le> x \<and> x < width d \<and> 0 \<le> y \<and> y < height d"

text \<open>The state of pixel \<open>(x, y)\<close>: bit \<open>y mod 8\<close> of the byte at \<open>width * (y div 8) + x\<close>.\<close>

definition pixel :: "SSD1306 \<Rightarrow> int \<Rightarrow> int \<Rightarrow> bool" where
  "pixel d x y = bit (buf d ! nat (width d * (y div 8) + x)) (nat (y mod 8))"

text \<open>The display \<^verbatim>\<open>New\<close> builds: every byte 0.\<close>

definition blank :: "int \<Rightarrow> int \<Rightarrow> int \<Rightarrow> SSD1306" where
  "blank ifc wd ht =
     \<lparr>iface = ifc, width = wd, height = ht, buf = replicate (nat (go_quo (wd * ht) 8)) 0\<rparr>"

text \<open>A world in which no call fails, and one in which every bus write fails.\<close>

definition quiet :: world where
  "quiet tr c = None"

definition bus_down :: world where
  "bus_down tr c =
     (case c of WriteI2C p b \<Rightarrow> Some ''write /dev/i2c-1: input/output error'' | _ \<Rightarrow> None)"

text \<open>A glyph table with the same column byte \<^verbatim>\<open>0xa5\<close> everywhere, for concrete runs.\<close>

definition font_a5 :: "byte list" where
  "font_a5 = replicate 640 0xa5"

text \<open>
  The transfer \<^verbatim>\<open>Draw\<close> is meant to make, in the words of the specification: the buffer cut
  into 32-byte chunks, chunk \<open>j\<close> being the bytes \<open>32 * j\<close> to \<open>32 * j + 31\<close>, each sent as
  one data frame (prefix \<^verbatim>\<open>0x40\<close>), in increasing order, stopping at the first write the
  bus refuses.
\<close>

definition chunk :: "byte list \<Rightarrow> nat \<Rightarrow> byte list" where
  "chunk b j = take 32 (drop (32 * j) b)"

definition data_frames :: "byte list \<Rightarrow> nat \<Rightarrow> nat \<Rightarrow> call list" where
  "data_frames b k n = map (\<lambda>j. WriteI2C 0x40 (chunk b j)) [k..<n]"

fun send_frames :: "world \<Rightarrow> call list \<Rightarrow> call list \<Rightarrow> go_error option \<times> call list" where
  "send_frames w tr [] = (None, tr)"
| "send_frames w tr (f # fs) =
     (case w tr f of Some e \<Rightarrow> (Some e, tr @ [f]) | None \<Rightarrow> send_frames w (tr @ [f]) fs)"

section \<open>Command and data framing\<close>

text \<open>
  C8.  On a bus-based display \<^verbatim>\<open>WriteCmd\<close> hands the payload to the bus in one write whose
  prefix byte depends on the length of the payload only: \<^verbatim>\<open>0x80\<close> for one byte, \<^verbatim>\<open>0x00\<close>
  otherwise; \<^verbatim>\<open>WriteData\<close> does the same with \<^verbatim>\<open>0xc0\<close> and \<^verbatim>\<open>0x40\<close>.  The four prefixes
  are pairwise different.  The payload is passed on as it is and never looked into.
\<close>

theorem framing_prefix_from_length:
  "iface d = IFACE_I2C \<Longrightarrow>
     WriteCmd w d cmd tr =
       (w tr (WriteI2C (if length cmd = 1 then 0x80 else 0x00) cmd), d,
        tr @ [WriteI2C (if length cmd = 1 then 0x80 else 0x00) cmd]) \<and>
     WriteData w d dat tr =
       (w tr (WriteI2C (if length dat = 1 then 0xc0 else 0x40) dat), d,
        tr @ [WriteI2C (if length dat = 1 then 0xc0 else 0x40) dat]) \<and>
     distinct [0x80, 0x00, 0xc0, 0x40 :: byte]"
  by (simp add: WriteCmd_def WriteData_def io_def)

theorem framing_prefix_from_length_witness:
  "iface (blank IFACE_I2C 128 64) = IFACE_I2C \<and>
   WriteCmd quiet (blank IFACE_I2C 128 64) [0xaf] [] =
     (None, blank IFACE_I2C 128 64, [WriteI2C 0x80 [0xaf]]) \<and>
   WriteData quiet (blank IFACE_I2C 128 64) [0x01, 0x02] [] =
     (None, blank IFACE_I2C 128 64, [WriteI2C 0x40 [0x01, 0x02]])"
proof -
  have h: "iface (blank IFACE_I2C 128 64) = IFACE_I2C"
    by (simp add: blank_def)
  show ?thesis
    using h framing_prefix_from_length [OF h, of quiet "[0xaf]" "[]" "[0x01, 0x02]"]
    by (simp add: quiet_def)
qed

section \<open>Teardown and bring-up\<close>

text \<open>
  C5.  What \<^verbatim>\<open>Close\<close> does on a bus-based display: the power-off opcode \<^verbatim>\<open>0xae\<close> goes out
  through \<^verbatim>\<open>WriteData\<close>, with the data prefix \<^verbatim>\<open>0xc0\<close>, and the reset pin is released after
  it.  A command frame, as \<^verbatim>\<open>WriteCmd\<close> sends it, has the prefix \<^verbatim>\<open>0x80\<close>.
\<close>

theorem Close_sends_data_frame:
  "snd (Close w (d\<lparr>iface := IFACE_I2C\<rparr>) tr) = tr @ [WriteI2C 0xc0 [DISP_OFF], GpioUnexport] \<and>
   snd (snd (WriteCmd w (d\<lparr>iface := IFACE_I2C\<rparr>) [DISP_OFF] tr)) = tr @ [WriteI2C 0x80 [DISP_OFF]]"
  by (simp add: Close_def WriteData_def WriteCmd_def io_def DISP_OFF_def)

text \<open>
  C4.  \<^verbatim>\<open>Setup\<close> on a bus-based display whose pin calls succeed and whose bus write fails:
  the configuration frame is attempted, its error is returned by the bus, and \<^verbatim>\<open>Setup\<close>
  returns \<^verbatim>\<open>nil\<close>.
\<close>

theorem Setup_drops_WriteCmd_error:
  "Setup bus_down (d\<lparr>iface := IFACE_I2C\<rparr>) [] =
     (None, d\<lparr>iface := IFACE_I2C\<rparr>,
      [GpioSetDirection ''out'', GpioSetValue 0, Sleep_ms 3, GpioSetValue 1,
       WriteI2C 0x00 setup_sequence]) \<and>
   fst (WriteCmd bus_down (d\<lparr>iface := IFACE_I2C\<rparr>) setup_sequence
          [GpioSetDirection ''out'', GpioSetValue 0, Sleep_ms 3, GpioSetValue 1]) =
     Some ''write /dev/i2c-1: input/output error''"
  by (simp add: Setup_def WriteCmd_def io_def bus_down_def setup_sequence_def)

section \<open>Rectangles\<close>

text \<open>
  C1.  A box over two page rows whose top edge is not on a page boundary, on a blank 8x16
  display: \<^verbatim>\<open>Rectangle(0, 3, 1, 9, white)\<close> leaves \<^verbatim>\<open>0xff\<close> in the two bytes of the top page
  row (rows 0 to 7), the row-by-row fill leaves \<^verbatim>\<open>0xf8\<close> there (rows 3 to 7).
\<close>

theorem Rectangle_overfills_top_page:
  "Rectangle (blank 1 8 16) 0 3 1 9 White =
     Some (Inr \<lparr>iface = 1, width = 8, height = 16,
                buf = [0xff, 0xff, 0, 0, 0, 0, 0, 0, 0x03, 0x03, 0, 0, 0, 0, 0, 0]\<rparr>) \<and>
   Rectangle_by_rows (blank 1 8 16) 0 3 1 9 White =
     Some (Inr \<lparr>iface = 1, width = 8, height = 16,
                buf = [0xf8, 0xf8, 0, 0, 0, 0, 0, 0, 0x03, 0x03, 0, 0, 0, 0, 0, 0]\<rparr>)"
  by code_simp

text \<open>
  C3.  A box that reaches one column past the right edge of a blank 8x16 display:
  \<^verbatim>\<open>Rectangle(0, 0, 8, 15, white)\<close> indexes the buffer at 16, its length, and panics.
  (\<^verbatim>\<open>Point\<close> and \<^verbatim>\<open>Circle\<close> do not fault on a well-formed display, nor does \<^verbatim>\<open>Line\<close>
  between endpoints up to \<open>2 ^ 50\<close>, see \<open>Point_total\<close>, \<open>Circle_total\<close> and
  \<open>Line_reaches_end\<close> below.)
\<close>

theorem Rectangle_out_of_range_faults:
  "Rectangle (blank 1 8 16) 0 0 8 15 White = Some (Inl IndexOutOfRange)"
  by code_simp

section \<open>Points and lines\<close>

text \<open>Go's truncating division agrees with \<open>div\<close> and \<open>mod\<close> on what is not negative.\<close>

lemma go_quo_nonneg: "0 \<le> a \<Longrightarrow> go_quo a 8 = a div 8"
  by (simp add: go_quo_def sgn_if)

lemma go_rem_nonneg: "0 \<le> a \<Longrightarrow> go_rem a 8 = a mod 8"
  by (simp add: go_rem_def go_quo_nonneg minus_mult_div_eq_mod)

lemma go_rem_uint: "go_rem (go_uint y) 8 = y mod 8"
proof -
  have "go_rem (go_uint y) 8 = (y mod 2 ^ 64) mod 8"
    by (simp add: go_uint_def go_rem_nonneg)
  also have "\<dots> = y mod 8"
    by (rule mod_mod_cancel) simp
  finally show ?thesis .
qed

lemma go_uint_small: "0 \<le> a \<Longrightarrow> a < 2 ^ 64 \<Longrightarrow> go_uint a = a"
  by (simp add: go_uint_def)

lemma page_index_bound:
  assumes "wf_display d" "0 \<le> x" "x < width d" "0 \<le> p" "p < height d div 8"
  shows "0 \<le> width d * p + x" "width d * p + x < int (length (buf d))"
proof -
  from assms show "0 \<le> width d * p + x" by (simp add: wf_display_def)
  have "width d * (p + 1) \<le> width d * (height d div 8)"
    using assms by (intro mult_left_mono) (auto simp: wf_display_def)
  then show "width d * p + x < int (length (buf d))"
    using assms by (simp add: wf_display_def algebra_simps)
qed

lemma page_of_row:
  assumes "wf_display d" "0 \<le> y" "y < height d"
  shows "0 \<le> y div 8" "y div 8 < height d div 8"
  using assms by (auto simp: wf_display_def) 

lemma page_index_inj:
  assumes "0 \<le> x" "x < w" "0 \<le> x'" "x' < w" "w * p + x = w * p' + x'"
  shows "p = p' \<and> x = (x' :: int)"
proof -
  have "(w * p + x) div w = p" "(w * p' + x') div w = p'"
    using assms(1-4) by simp_all
  with assms(5) have "p = p'" by simp
  with assms show ?thesis by simp
qed

lemma Point_in_range:
  assumes "wf_display d" "in_range d x y"
  shows "Point d x y c =
           Inr (d\<lparr>buf := (buf d)[nat (width d * (y div 8) + x) :=
                  apply_mask c (2 ^ nat (y mod 8)) (buf d ! nat (width d * (y div 8) + x))]\<rparr>)"
proof -
  from assms have y: "0 \<le> y div 8" "y div 8 < height d div 8"
    by (auto simp: in_range_def intro: page_of_row)
  from page_index_bound [OF assms(1) _ _ y, of x] assms(2)
  have "0 \<le> width d * (y div 8) + x" "width d * (y div 8) + x < int (length (buf d))"
    by (auto simp: in_range_def)
  moreover have "shl 1 (y mod 8) = 2 ^ nat (y mod 8)"
    by (simp add: shl_def)
  ultimately show ?thesis
    using assms(2)
    by (simp add: Point_def in_range_def go_quo_nonneg go_rem_uint buf_modify_def Let_def)
qed

lemma Point_out_of_range: "\<not> in_range d x y \<Longrightarrow> Point d x y c = Inr d"
  by (auto simp: Point_def in_range_def)


lemma bit_apply_mask_single:
  "n < 8 \<Longrightarrow> m < 8 \<Longrightarrow>
     bit (apply_mask c (2 ^ n) (v :: byte)) m = (if m = n then c = White else bit v m)"
  by (auto simp: apply_mask_def bit_or_iff bit_and_iff bit_not_iff bit_exp_iff)

lemma row_eq_iff: "(py :: int) = y \<longleftrightarrow> py div 8 = y div 8 \<and> py mod 8 = y mod 8"
  by (metis div_mult_mod_eq)

lemma Point_total:
  assumes wf: "wf_display d"
  shows "\<exists>d'. Point d x y c = Inr d' \<and> wf_display d' \<and> width d' = width d \<and> height d' = height d \<and>
           (\<forall>px py. in_range d px py \<longrightarrow>
              pixel d' px py = (if px = x \<and> py = y then c = White else pixel d px py))"
proof (cases "in_range d x y")
  case False
  then show ?thesis
    using wf by (auto simp: Point_out_of_range)
next
  case True
  let ?i = "nat (width d * (y div 8) + x)"
  let ?d' = "d\<lparr>buf := (buf d)[?i := apply_mask c (2 ^ nat (y mod 8)) (buf d ! ?i)]\<rparr>"
  have P: "Point d x y c = Inr ?d'"
    by (rule Point_in_range [OF wf True])
  have wf': "wf_display ?d'"
    using wf by (simp add: wf_display_def)
  from True have y: "0 \<le> y div 8" "y div 8 < height d div 8"
    using wf by (auto simp: in_range_def intro: page_of_row)
  from page_index_bound [OF wf _ _ y, of x] True
  have i: "0 \<le> width d * (y div 8) + x" "width d * (y div 8) + x < int (length (buf d))"
    by (auto simp: in_range_def)
  have px: "pixel ?d' px py = (if px = x \<and> py = y then c = White else pixel d px py)"
    if R: "in_range d px py" for px py
  proof -
    from R have py: "0 \<le> py div 8" "py div 8 < height d div 8"
      using wf by (auto simp: in_range_def intro: page_of_row)
    from page_index_bound [OF wf _ _ py, of px] R
    have j: "0 \<le> width d * (py div 8) + px" "width d * (py div 8) + px < int (length (buf d))"
      by (auto simp: in_range_def)
    show ?thesis
    proof (cases "width d * (py div 8) + px = width d * (y div 8) + x")
      case same: True
      from page_index_inj [OF _ _ _ _ same] R True
      have e: "py div 8 = y div 8" "px = x"
        by (auto simp: in_range_def)
      have "pixel ?d' px py = bit (apply_mask c (2 ^ nat (y mod 8)) (buf d ! ?i)) (nat (py mod 8))"
        using i same by (simp add: pixel_def)
      also have "\<dots> = (if nat (py mod 8) = nat (y mod 8) then c = White else bit (buf d ! ?i) (nat (py mod 8)))"
        by (rule bit_apply_mask_single) (auto simp: nat_less_iff)
      also have "\<dots> = (if px = x \<and> py = y then c = White else pixel d px py)"
        using e same by (auto simp: pixel_def row_eq_iff [of py y] nat_eq_iff)
      finally show ?thesis .
    next
      case diff: False
      then have "nat (width d * (py div 8) + px) \<noteq> ?i"
        using i j by (simp add: nat_eq_iff)
      moreover from diff have "\<not> (px = x \<and> py = y)" by auto
      ultimately show ?thesis
        by (auto simp: pixel_def)
    qed
  qed
  show ?thesis
    using P wf' px by (intro exI [of _ ?d']) simp
qed


text \<open>Where nothing is rounded and nothing wraps.\<close>

lemma f64_exact: "\<bar>v\<bar> < 2 ^ 53 \<Longrightarrow> f64 v = v"
proof -
  assume "\<bar>v\<bar> < 2 ^ 53"
  then have "f64_shift \<bar>v\<bar> = 0"
    by (subst f64_shift.simps) simp
  then show ?thesis
    by (simp add: f64_def Let_def sgn_if)
qed

lemma wrap64_exact: "- (2 ^ 63) \<le> v \<Longrightarrow> v < 2 ^ 63 \<Longrightarrow> wrap64 v = v"
  by (simp add: wrap64_def)

text \<open>
  The loop of \<^verbatim>\<open>Line\<close> returns when its numbers are small enough for \<^verbatim>\<open>float64\<close> to be
  exact.  With \<open>a\<close> and \<open>b\<close> the steps still to go in \<open>x\<close> and in \<open>y\<close>, the error term is
  \<open>dx - dy + a * dy - b * dx\<close> and stays between \<open>- 3 * dy / 2\<close> and \<open>3 * dx / 2\<close>; it never
  lets \<open>x\<close> step once \<open>a = 0\<close> nor \<open>y\<close> once \<open>b = 0\<close>, and one of the two steps is taken in
  every round.
\<close>

lemma line_loop_round:
  assumes P: "Point d x0 y0 c = Inr d1" and ne: "\<not> (x0 = x1 \<and> y0 = y1)"
    and r: "f64 (2 * err) = 2 * err" "f64 (err - dy) = err - dy" "f64 (err + dx) = err + dx"
      "f64 (err - dy + dx) = err - dy + dx"
    and w: "wrap64 (x0 + sx) = x0 + sx" "wrap64 (y0 + sy) = y0 + sy"
  shows "line_loop d c dx dy sx sy x1 y1 err x0 y0 =
           (if (if - dy < 2 * err then x0 + sx else x0) = x1 \<and> y0 = y1
            then Some (Point d1 (if - dy < 2 * err then x0 + sx else x0) y0 c)
            else line_loop d1 c dx dy sx sy x1 y1
                   (if 2 * err < dx then (if - dy < 2 * err then err - dy else err) + dx
                    else (if - dy < 2 * err then err - dy else err))
                   (if - dy < 2 * err then x0 + sx else x0)
                   (if 2 * err < dx then y0 + sy else y0))"
proof (cases "- dy < 2 * err")
  case xs: True
  show ?thesis
  proof (cases "2 * err < dx")
    case True
    show ?thesis
      by (subst line_loop.simps)
        (simp only: P sum.case ne if_False Let_def r xs True if_True w)
  next
    case False
    show ?thesis
      by (subst line_loop.simps)
        (simp only: P sum.case ne if_False Let_def r xs False if_True w)
  qed
next
  case nxs: False
  show ?thesis
  proof (cases "2 * err < dx")
    case True
    show ?thesis
      by (subst line_loop.simps)
        (simp only: P sum.case ne if_False Let_def r nxs True if_True w)
  next
    case False
    show ?thesis
      by (subst line_loop.simps)
        (simp only: P sum.case ne if_False Let_def r nxs False if_True w)
  qed
qed

lemma line_loop_reaches_end:
  fixes dx dy a b :: int
  assumes "wf_display d" and "0 \<le> dx" and "0 \<le> dy"
    and "0 \<le> a" and "a \<le> dx" and "0 \<le> b" and "b \<le> dy"
    and "sx = 1 \<or> sx = - 1" and "sy = 1 \<or> sy = - 1"
    and "x1 = x0 + sx * a" and "y1 = y0 + sy * b"
    and "err = dx - dy + a * dy - b * dx"
    and "dx \<le> 2 ^ 51" and "dy \<le> 2 ^ 51" and "\<bar>x1\<bar> \<le> 2 ^ 50" and "\<bar>y1\<bar> \<le> 2 ^ 50"
    and "- (3 * dy) \<le> 2 * err" and "2 * err \<le> 3 * dx"
  shows "\<exists>d'. line_loop d c dx dy sx sy x1 y1 err x0 y0 = Some (Inr d') \<and>
           wf_display d' \<and> width d' = width d \<and> height d' = height d \<and>
           (\<forall>px py. in_range d px py \<longrightarrow>
              (pixel d px py = (c = White) \<or> (px = x0 \<and> py = y0) \<or> (px = x1 \<and> py = y1)) \<longrightarrow>
              pixel d' px py = (c = White))"
  using assms
proof (induction "nat (a + b)" arbitrary: d a b x0 y0 err rule: less_induct)
  case less
  note wf = \<open>wf_display d\<close>
  note big = \<open>dx \<le> 2 ^ 51\<close> \<open>dy \<le> 2 ^ 51\<close> \<open>0 \<le> dx\<close> \<open>0 \<le> dy\<close>
  note ebound = \<open>- (3 * dy) \<le> 2 * err\<close> \<open>2 * err \<le> 3 * dx\<close>
  from Point_total [OF wf, of x0 y0 c]
  obtain d1 where P1: "Point d x0 y0 c = Inr d1" and wf1: "wf_display d1"
    and dim1: "width d1 = width d" "height d1 = height d"
    and pix1: "\<And>px py. in_range d px py \<Longrightarrow>
                 pixel d1 px py = (if px = x0 \<and> py = y0 then c = White else pixel d px py)"
    by blast
  have rng1: "in_range d1 px py = in_range d px py" for px py
    by (simp add: in_range_def dim1)
  have at_x: "x0 = x1 \<longleftrightarrow> a = 0" and at_y: "y0 = y1 \<longleftrightarrow> b = 0"
    using less.prems by auto
  have r1: "f64 (2 * err) = 2 * err" and r2: "f64 (err - dy) = err - dy"
    and r3: "f64 (err + dx) = err + dx" and r4: "f64 (err - dy + dx) = err - dy + dx"
    using big ebound by (auto intro!: f64_exact)
  have w1: "wrap64 (x0 + sx) = x0 + sx" and w2: "wrap64 (y0 + sy) = y0 + sy"
  proof -
    have "\<bar>x0\<bar> \<le> \<bar>x1\<bar> + a" and "\<bar>y0\<bar> \<le> \<bar>y1\<bar> + b"
      using less.prems(4,6,8,9,10,11) by auto
    with less.prems(5,7,8,9,15,16) big
    have "\<bar>x0 + sx\<bar> \<le> 2 ^ 50 + 2 ^ 51 + 1" and "\<bar>y0 + sy\<bar> \<le> 2 ^ 50 + 2 ^ 51 + 1"
      by auto
    then show "wrap64 (x0 + sx) = x0 + sx" and "wrap64 (y0 + sy) = y0 + sy"
      by (auto intro!: wrap64_exact)
  qed
  show ?case
  proof (cases "a = 0 \<and> b = 0")
    case True
    then have "line_loop d c dx dy sx sy x1 y1 err x0 y0 = Some (Inr d1)"
      by (subst line_loop.simps) (simp add: P1 at_x at_y)
    moreover from True have "x1 = x0" "y1 = y0"
      using at_x at_y by auto
    ultimately show ?thesis
      using wf1 dim1 pix1 by auto
  next
    case notend: False
    define xs where "xs \<longleftrightarrow> - dy < 2 * err"
    define ys where "ys \<longleftrightarrow> 2 * err < dx"
    have xa: "0 < a" if xs
    proof (rule ccontr)
      assume "\<not> 0 < a"
      with less.prems notend have a0: "a = 0" and b1: "1 \<le> b" by auto
      from b1 \<open>0 \<le> dx\<close> have "dx * 1 \<le> dx * b" by (intro mult_left_mono) auto
      with a0 less.prems(12) have "err \<le> - dy" by (simp add: algebra_simps)
      with \<open>0 \<le> dy\<close> that show False by (simp add: xs_def)
    qed
    have yb: "0 < b" if ys
    proof (rule ccontr)
      assume "\<not> 0 < b"
      with less.prems notend have b0: "b = 0" and a1: "1 \<le> a" by auto
      from a1 \<open>0 \<le> dy\<close> have "dy * 1 \<le> dy * a" by (intro mult_left_mono) auto
      with b0 less.prems(12) have "dx \<le> err" by (simp add: algebra_simps)
      with \<open>0 \<le> dx\<close> that show False by (simp add: ys_def)
    qed
    have progress: "xs \<or> ys"
    proof (rule ccontr)
      assume "\<not> (xs \<or> ys)"
      then have "dx \<le> - dy" by (simp add: xs_def ys_def)
      with less.prems notend show False by auto
    qed
    define a' where "a' = (if xs then a - 1 else a)"
    define x0' where "x0' = (if xs then x0 + sx else x0)"
    define err' where "err' = (if xs then err - dy else err)"
    have a': "0 \<le> a'" "a' \<le> dx" and x1': "x1 = x0' + sx * a'"
      and e': "err' = dx - dy + a' * dy - b * dx"
      using less.prems(1-12) xa by (auto simp: a'_def x0'_def err'_def algebra_simps)
    have at_x': "x0' = x1 \<longleftrightarrow> a' = 0"
      using x1' less.prems(8) by auto
    define b' where "b' = (if ys then b - 1 else b)"
    define y0' where "y0' = (if ys then y0 + sy else y0)"
    define err'' where "err'' = (if ys then err' + dx else err')"
    have ne: "\<not> (x0 = x1 \<and> y0 = y1)"
      using notend at_x at_y by simp
    have round: "line_loop d c dx dy sx sy x1 y1 err x0 y0 =
        (if x0' = x1 \<and> y0 = y1 then Some (Point d1 x0' y0 c)
         else line_loop d1 c dx dy sx sy x1 y1 err'' x0' y0')"
      unfolding x0'_def y0'_def err''_def err'_def xs_def ys_def
      by (rule line_loop_round [OF P1 ne r1 r2 r3 r4 w1 w2])
    show ?thesis
    proof (cases "a' = 0 \<and> b = 0")
      case True
      from Point_total [OF wf1, of x0' y0 c]
      obtain d2 where P2: "Point d1 x0' y0 c = Inr d2" and wf2: "wf_display d2"
        and dim2: "width d2 = width d1" "height d2 = height d1"
        and pix2: "\<And>px py. in_range d1 px py \<Longrightarrow>
                     pixel d2 px py = (if px = x0' \<and> py = y0 then c = White else pixel d1 px py)"
        by blast
      from True have "x0' = x1 \<and> y0 = y1"
        using at_x' at_y by simp
      then have "line_loop d c dx dy sx sy x1 y1 err x0 y0 = Some (Point d1 x0' y0 c)"
        by (rule trans [OF round if_P])
      then have "line_loop d c dx dy sx sy x1 y1 err x0 y0 = Some (Inr d2)"
        by (simp only: P2)
      moreover from True have "x1 = x0'" "y1 = y0"
        using at_x' at_y by auto
      ultimately show ?thesis
        using wf2 dim1 dim2 pix1 pix2 rng1 by auto
    next
      case False
      have b': "0 \<le> b'" "b' \<le> dy" and y1': "y1 = y0' + sy * b'"
        and e'': "err'' = dx - dy + a' * dy - b' * dx"
        using less.prems(1-12) yb e' by (auto simp: b'_def y0'_def err''_def algebra_simps)
      have eb'': "- (3 * dy) \<le> 2 * err''" "2 * err'' \<le> 3 * dx"
        using progress ebound big
        by (auto simp: err''_def err'_def xs_def ys_def)
      have smaller: "nat (a' + b') < nat (a + b)"
        using progress xa yb less.prems(4,6) by (auto simp: a'_def b'_def)
      from less.hyps [OF smaller wf1 \<open>0 \<le> dx\<close> \<open>0 \<le> dy\<close> a' b' less.prems(8,9) x1' y1' e''
          \<open>dx \<le> 2 ^ 51\<close> \<open>dy \<le> 2 ^ 51\<close> \<open>\<bar>x1\<bar> \<le> 2 ^ 50\<close> \<open>\<bar>y1\<bar> \<le> 2 ^ 50\<close> eb'']
      obtain d' where L: "line_loop d1 c dx dy sx sy x1 y1 err'' x0' y0' = Some (Inr d')"
        and wf': "wf_display d'" and dim': "width d' = width d1" "height d' = height d1"
        and pix': "\<And>px py. in_range d1 px py \<Longrightarrow>
                     pixel d1 px py = (c = White) \<or> (px = x0' \<and> py = y0') \<or> (px = x1 \<and> py = y1) \<Longrightarrow>
                     pixel d' px py = (c = White)"
        by blast
      from False have "\<not> (x0' = x1 \<and> y0 = y1)"
        using at_x' at_y by simp
      then have "line_loop d c dx dy sx sy x1 y1 err x0 y0 =
              line_loop d1 c dx dy sx sy x1 y1 err'' x0' y0'"
        by (rule trans [OF round if_not_P])
      with L have "line_loop d c dx dy sx sy x1 y1 err x0 y0 = Some (Inr d')"
        by simp
      moreover have "pixel d' px py = (c = White)"
        if "in_range d px py"
          and "pixel d px py = (c = White) \<or> (px = x0 \<and> py = y0) \<or> (px = x1 \<and> py = y1)"
        for px py
      proof -
        from that have "pixel d1 px py = (c = White) \<or> (px = x1 \<and> py = y1)"
          using pix1 [OF that(1)] by auto
        with that(1) show ?thesis
          using pix' [of px py] rng1 by auto
      qed
      ultimately show ?thesis
        using wf' dim' dim1 by auto
    qed
  qed
qed

lemma Line_reaches_end:
  assumes wf: "wf_display d"
    and small: "\<bar>x0\<bar> \<le> 2 ^ 50" "\<bar>y0\<bar> \<le> 2 ^ 50" "\<bar>x1\<bar> \<le> 2 ^ 50" "\<bar>y1\<bar> \<le> 2 ^ 50"
  shows "\<exists>d'. Line d x0 y0 x1 y1 c = Some (Inr d') \<and>
           wf_display d' \<and> width d' = width d \<and> height d' = height d \<and>
           (\<forall>px py. in_range d px py \<longrightarrow>
              (pixel d px py = (c = White) \<or> (px = x0 \<and> py = y0) \<or> (px = x1 \<and> py = y1)) \<longrightarrow>
              pixel d' px py = (c = White))"
proof -
  have c: "f64 x0 = x0" "f64 y0 = y0" "f64 x1 = x1" "f64 y1 = y1"
    using small by (auto intro!: f64_exact)
  have dxy: "\<bar>x1 - x0\<bar> \<le> 2 ^ 51" "\<bar>y1 - y0\<bar> \<le> 2 ^ 51"
    using small by auto
  then have s: "f64 (x1 - x0) = x1 - x0" "f64 (y1 - y0) = y1 - y0"
    "f64 (\<bar>x1 - x0\<bar> - \<bar>y1 - y0\<bar>) = \<bar>x1 - x0\<bar> - \<bar>y1 - y0\<bar>"
    by (auto intro!: f64_exact)
  have L: "Line d x0 y0 x1 y1 c =
      line_loop d c \<bar>x1 - x0\<bar> \<bar>y1 - y0\<bar> (if x0 < x1 then 1 else - 1) (if y0 < y1 then 1 else - 1)
        x1 y1 (\<bar>x1 - x0\<bar> - \<bar>y1 - y0\<bar>) x0 y0"
    by (simp only: Line_def Let_def c s)
  show ?thesis
    unfolding L
    by (rule line_loop_reaches_end [OF wf, where a = "\<bar>x1 - x0\<bar>" and b = "\<bar>y1 - y0\<bar>"])
      (use small dxy in \<open>auto simp: abs_if\<close>)
qed

lemma Line_single_point: "Line d x y x y c = Some (Point d x y c)"
  unfolding Line_def Let_def
  by (subst line_loop.simps) (simp split: sum.splits)

lemma Line_five_points:
  "Line d 0 0 4 0 c = Some (points d [(0, 0), (1, 0), (2, 0), (3, 0), (4, 0)] c)"
  by (simp add: Line_def line_loop.simps f64_exact wrap64_exact split: sum.splits)

lemma Line_five_points_blank:
  "Line (blank ifc 8 8) 0 0 4 0 White = Some (Inr ((blank ifc 8 8)\<lparr>buf := [1, 1, 1, 1, 1, 0, 0, 0]\<rparr>))"
  by code_simp

text \<open>
  At the endpoints \<open>(2 ^ 53, 0)\<close> and \<open>(2 ^ 53 + 1, 0)\<close> the conversion of \<open>2 ^ 53 + 1\<close> to
  \<^verbatim>\<open>float64\<close> is \<open>2 ^ 53\<close>, so \<^verbatim>\<open>dx\<close>, \<^verbatim>\<open>dy\<close> and \<^verbatim>\<open>err\<close> are 0 although the endpoints differ:
  neither coordinate steps, and a loop in this state has no result.
\<close>

lemma f64_ties_to_even: "f64 9007199254740993 = 9007199254740992"
  by code_simp

lemma f64_two_to_53: "f64 9007199254740992 = 9007199254740992"
  by code_simp

lemma line_loop_stuck:
  assumes ret: "line_loop d c dx dy sx sy x1 y1 err x0 y0 = Some r"
  shows "\<not> (dx = 0 \<and> dy = 0 \<and> err = 0 \<and> (x0 \<noteq> x1 \<or> y0 \<noteq> y1) \<and> \<not> in_range d x0 y0)"
proof (rule line_loop.raw_induct
    [where P = "\<lambda>d c dx dy sx sy x1 y1 err x0 y0 r.
       \<not> (dx = 0 \<and> dy = 0 \<and> err = 0 \<and> (x0 \<noteq> x1 \<or> y0 \<noteq> y1) \<and> \<not> in_range d x0 y0)",
     OF _ ret], goal_cases)
  case (1 loop d c dx dy sx sy x1 y1 err x0 y0 r)
  show ?case
  proof
    assume stuck: "dx = 0 \<and> dy = 0 \<and> err = 0 \<and> (x0 \<noteq> x1 \<or> y0 \<noteq> y1) \<and> \<not> in_range d x0 y0"
    then have P: "Point d x0 y0 c = Inr d"
      by (simp add: Point_out_of_range)
    have z: "f64 0 = 0"
      by (simp add: f64_exact)
    from 1(2) stuck have "loop d c dx dy sx sy x1 y1 err x0 y0 = Some r"
      by (auto simp: P z Let_def)
    from 1(1) [OF this] stuck show False
      by simp
  qed
qed

text \<open>
  C7, as stated for every pair of endpoints, fails: on a blank 8x8 display
  \<^verbatim>\<open>Line(1<<53, 0, 1<<53 + 1, 0, white)\<close> never returns.
\<close>

theorem Line_never_returns_past_float64:
  "Line (blank 1 8 8) (2 ^ 53) 0 (2 ^ 53 + 1) 0 White = None"
proof -
  have out: "\<not> in_range (blank 1 8 8) (2 ^ 53) 0"
    by (simp add: in_range_def blank_def)
  have L: "Line (blank 1 8 8) (2 ^ 53) 0 (2 ^ 53 + 1) 0 White =
      line_loop (blank 1 8 8) White 0 0 1 (- 1) (2 ^ 53 + 1) 0 0 (2 ^ 53) 0"
    by (simp add: Line_def f64_ties_to_even f64_two_to_53 f64_exact)
  have "line_loop (blank 1 8 8) White 0 0 1 (- 1) (2 ^ 53 + 1) 0 0 (2 ^ 53) 0 \<noteq> Some r" for r
    using line_loop_stuck [of "blank 1 8 8" White 0 0 1 "- 1" "2 ^ 53 + 1" 0 0 "2 ^ 53" 0 r] out
    by auto
  then show ?thesis
    unfolding L by (simp only: not_Some_eq [symmetric] not_False_eq_True simp_thms) 
qed

text \<open>
  C7, amended.  On a well-formed display and for endpoints whose coordinates are at most
  \<open>2 ^ 50\<close> in absolute value, \<^verbatim>\<open>Line\<close> returns, for every colour, and both endpoints that lie
  on the panel have the colour afterwards.  For every \<open>x\<close> and \<open>y\<close>, \<^verbatim>\<open>Line(x, y, x, y, c)\<close> is
  the single call \<^verbatim>\<open>Point(x, y, c)\<close>.  \<^verbatim>\<open>Line(0, 0, 4, 0, c)\<close> is the five calls of \<^verbatim>\<open>Point\<close>
  at \<open>(0,0)\<close> to \<open>(4,0)\<close> and nothing else; on a blank 8x8 buffer it leaves bit 0 set in the
  bytes 0 to 4.
\<close>

theorem Line_plots_both_endpoints:
  assumes "wf_display d"
    and "\<bar>x0\<bar> \<le> 2 ^ 50" and "\<bar>y0\<bar> \<le> 2 ^ 50" and "\<bar>x1\<bar> \<le> 2 ^ 50" and "\<bar>y1\<bar> \<le> 2 ^ 50"
  shows "(\<exists>d'. Line d x0 y0 x1 y1 c = Some (Inr d') \<and>
            (in_range d x0 y0 \<longrightarrow> pixel d' x0 y0 = (c = White)) \<and>
            (in_range d x1 y1 \<longrightarrow> pixel d' x1 y1 = (c = White))) \<and>
         Line d x y x y c = Some (Point d x y c) \<and>
         Line d 0 0 4 0 c = Some (points d [(0, 0), (1, 0), (2, 0), (3, 0), (4, 0)] c) \<and>
         Line (blank ifc 8 8) 0 0 4 0 White =
           Some (Inr ((blank ifc 8 8)\<lparr>buf := [1, 1, 1, 1, 1, 0, 0, 0]\<rparr>))"
proof -
  from Line_reaches_end [OF assms, of c]
  have "\<exists>d'. Line d x0 y0 x1 y1 c = Some (Inr d') \<and>
            (in_range d x0 y0 \<longrightarrow> pixel d' x0 y0 = (c = White)) \<and>
            (in_range d x1 y1 \<longrightarrow> pixel d' x1 y1 = (c = White))"
    by blast
  with Line_single_point [of d x y c] Line_five_points [of d c] Line_five_points_blank [of ifc]
  show ?thesis
    by (intro conjI)
qed

theorem Line_plots_both_endpoints_witness:
  "wf_display (blank 1 8 8) \<and> \<bar>7 :: int\<bar> \<le> 2 ^ 50 \<and> \<bar>0 :: int\<bar> \<le> 2 ^ 50 \<and> \<bar>3 :: int\<bar> \<le> 2 ^ 50 \<and>
   (\<exists>d'. Line (blank 1 8 8) 7 7 0 3 White = Some (Inr d') \<and> pixel d' 7 7 \<and> pixel d' 0 3)"
proof -
  have h: "wf_display (blank 1 8 8)"
    by (simp add: wf_display_def blank_def go_quo_def)
  have b: "\<bar>7 :: int\<bar> \<le> 2 ^ 50" "\<bar>0 :: int\<bar> \<le> 2 ^ 50" "\<bar>3 :: int\<bar> \<le> 2 ^ 50"
    by simp_all
  from Line_plots_both_endpoints [OF h b(1) b(1) b(2) b(3), of White]
  show ?thesis
    using h by (simp add: in_range_def blank_def)
qed

text \<open>\<^verbatim>\<open>Circle\<close> is built from \<^verbatim>\<open>Point\<close> alone and never faults on a well-formed display.\<close>

lemma points_total:
  "wf_display d \<Longrightarrow>
     \<exists>d'. points d ps c = Inr d' \<and> wf_display d' \<and> width d' = width d \<and> height d' = height d"
proof (induction ps arbitrary: d)
  case Nil
  then show ?case by simp
next
  case (Cons p ps)
  obtain x y where p: "p = (x, y)" by (cases p)
  from Point_total [OF Cons.prems, of x y c]
  obtain d1 where "Point d x y c = Inr d1" "wf_display d1" "width d1 = width d" "height d1 = height d"
    by blast
  with Cons.IH [of d1] show ?case
    by (auto simp: p)
qed

lemma circle_loop_total:
  "wf_display d \<Longrightarrow> \<exists>d'. circle_loop d c x0 y0 f ddF_x ddF_y x y = Inr d' \<and> wf_display d'"
proof (induction d c x0 y0 f ddF_x ddF_y x y rule: circle_loop.induct)
  case (1 d c x0 y0 f ddF_x ddF_y x y)
  show ?case
  proof (cases "x < y")
    case False
    with "1.prems" show ?thesis
      by (subst circle_loop.simps) simp
  next
    case True
    let ?y' = "if f \<ge> 0 then y - 1 else y"
    let ?ps = "[(x0 + (x + 1), y0 + ?y'), (x0 - (x + 1), y0 + ?y'), (x0 + (x + 1), y0 - ?y'),
                (x0 - (x + 1), y0 - ?y'), (x0 + ?y', y0 + (x + 1)), (x0 - ?y', y0 + (x + 1)),
                (x0 + ?y', y0 - (x + 1)), (x0 - ?y', y0 - (x + 1))]"
    from points_total [OF "1.prems", of ?ps c]
    obtain d1 where ps: "points d ?ps c = Inr d1" and wf1: "wf_display d1"
      by blast
    from "1.IH" [OF True refl refl refl refl refl refl ps wf1] ps True
    show ?thesis
      by (subst circle_loop.simps) (simp add: Let_def del: points.simps)
  qed
qed

lemma Circle_total:
  assumes "wf_display d"
  shows "\<exists>d'. Circle d x0 y0 radius c = Inr d' \<and> wf_display d'"
proof -
  from points_total [OF assms]
  obtain d1 where "points d [(x0, y0 + radius), (x0, y0 - radius), (x0 + radius, y0), (x0 - radius, y0)] c = Inr d1"
    and "wf_display d1"
    by blast
  with circle_loop_total [of d1] show ?thesis
    by (simp add: Circle_def del: points.simps)
qed

section \<open>Glyph rendering\<close>

text \<open>
  One loop of \<^verbatim>\<open>Char\<close>, run from column \<open>i\<close>: it returns without a fault when every byte it
  is going to touch exists, and changes exactly the bytes \<open>base + j\<close> of the columns \<open>j\<close> it
  visits.
\<close>

lemma char_loop_effect:
  assumes "0 \<le> i" and "0 \<le> base" and "0 \<le> r" and "r \<le> 127" and "640 \<le> length font"
    and "\<forall>j. i \<le> j \<and> j < 5 \<and> x + j < width d \<longrightarrow> base + j < int (length (buf d))"
  shows "\<exists>d'. char_loop font d c r sh base x i = Inr d' \<and>
           iface d' = iface d \<and> width d' = width d \<and> height d' = height d \<and>
           length (buf d') = length (buf d) \<and>
           (\<forall>k < length (buf d).
              buf d' ! k =
                (if i \<le> int k - base \<and> int k - base < 5 \<and> x + (int k - base) < width d
                 then apply_mask c (sh (font ! nat (5 * r + (int k - base)))) (buf d ! k)
                 else buf d ! k))"
  using assms
proof (induction font d c r sh base x i rule: char_loop.induct)
  case (1 font d c r sh base x i)
  show ?case
  proof (cases "i < 5 \<and> x + i < width d")
    case False
    then show ?thesis
      by (subst char_loop.simps) auto
  next
    case True
    let ?g = "font ! nat (5 * r + i)"
    let ?n = "nat (base + i)"
    let ?d1 = "d\<lparr>buf := (buf d)[?n := apply_mask c (sh ?g) (buf d ! ?n)]\<rparr>"
    have idx: "0 \<le> 5 * r + i" "5 * r + i < 2 ^ 64" "5 * r + i < int (length font)"
      using "1.prems" True by auto
    then have F: "font_at font (go_uint (5 * r + i)) = Inr ?g"
      by (simp add: font_at_def go_uint_small)
    have n: "0 \<le> base + i" "base + i < int (length (buf d))"
      using "1.prems" True by auto
    then have B: "buf_modify d (base + i) (apply_mask c (sh ?g)) = Inr ?d1"
      by (simp add: buf_modify_def)
    have pre: "\<forall>j. i + 1 \<le> j \<and> j < 5 \<and> x + j < width ?d1 \<longrightarrow> base + j < int (length (buf ?d1))"
      using "1.prems"(6) by auto
    from "1.IH" [OF True F B _ "1.prems"(2-5) pre] "1.prems"(1)
    obtain d' where L: "char_loop font ?d1 c r sh base x (i + 1) = Inr d'"
      and same: "iface d' = iface d" "width d' = width d" "height d' = height d"
        "length (buf d') = length (buf d)"
      and eff: "\<And>k. k < length (buf d) \<Longrightarrow>
                  buf d' ! k =
                    (if i + 1 \<le> int k - base \<and> int k - base < 5 \<and> x + (int k - base) < width d
                     then apply_mask c (sh (font ! nat (5 * r + (int k - base)))) (buf ?d1 ! k)
                     else buf ?d1 ! k)"
      by auto
    have "char_loop font d c r sh base x i = Inr d'"
      using True F B L by (subst char_loop.simps) simp
    moreover have "buf d' ! k =
        (if i \<le> int k - base \<and> int k - base < 5 \<and> x + (int k - base) < width d
         then apply_mask c (sh (font ! nat (5 * r + (int k - base)))) (buf d ! k)
         else buf d ! k)" if k: "k < length (buf d)" for k
    proof (cases "int k - base = i")
      case here: True
      then have "k = ?n" by auto
      with eff [OF k] here True k show ?thesis by simp
    next
      case False
      then have "k \<noteq> ?n" using n by auto
      with eff [OF k] False show ?thesis by auto
    qed
    ultimately show ?thesis
      using same by blast
  qed
qed

lemma go_quo_neg_le: "y < 0 \<Longrightarrow> go_quo y 8 \<le> 0"
  by (simp add: go_quo_def sgn_if)

lemma buffer_size: "wf_display d \<Longrightarrow> go_quo (width d * height d) 8 = int (length (buf d))"
proof -
  assume wf: "wf_display d"
  then obtain k where k: "height d = 8 * k"
    by (auto simp: wf_display_def)
  with wf have "0 \<le> k" "0 \<le> width d"
    by (auto simp: wf_display_def)
  then have "0 \<le> width d * k" by simp
  moreover have "width d * height d = 8 * (width d * k)"
    by (simp add: k)
  moreover have "go_quo (8 * m) 8 = m" if "0 \<le> m" for m
    using that by (simp add: go_quo_nonneg)
  ultimately have "go_quo (width d * height d) 8 = width d * k"
    by (simp only:)
  with wf k show ?thesis
    by (simp add: wf_display_def)
qed

lemma char_span_fits:
  assumes wf: "wf_display d" and y: "y < height d" and xj: "x + j < width d"
    and pos: "0 < length (buf d)" and q: "q \<le> go_quo y 8"
  shows "width d * q + x + j < int (length (buf d))"
proof -
  from wf have w: "0 \<le> width d"
    by (simp add: wf_display_def)
  have hp: "0 < height d div 8"
  proof (rule ccontr)
    assume "\<not> 0 < height d div 8"
    with w have "width d * (height d div 8) \<le> 0"
      by (simp add: mult_nonneg_nonpos)
    with wf pos show False
      by (simp add: wf_display_def)
  qed
  have "go_quo y 8 < height d div 8"
  proof (cases "0 \<le> y")
    case True
    with page_of_row [OF wf True y] show ?thesis
      by (simp add: go_quo_nonneg)
  next
    case False
    with go_quo_neg_le [of y] hp show ?thesis by simp
  qed
  with q have "q + 1 \<le> height d div 8" by simp
  with w have "width d * (q + 1) \<le> width d * (height d div 8)"
    by (rule mult_left_mono [rotated])
  with xj wf show ?thesis
    by (simp add: wf_display_def algebra_simps)
qed


lemma char_pass:
  assumes wf: "wf_display d" and font: "640 \<le> length font" and r: "0 \<le> r" "r \<le> 127"
    and x: "x < width d" and y: "y < height d" and base: "base \<le> width d * go_quo y 8 + x"
  shows "\<exists>d1. (if base < go_quo (width d * height d) 8 \<and> base \<ge> 0
               then char_loop font d c r sh base x 0 else Inr d) = Inr d1 \<and>
           iface d1 = iface d \<and> width d1 = width d \<and> height d1 = height d \<and>
           length (buf d1) = length (buf d) \<and>
           (\<forall>k < length (buf d).
              buf d1 ! k =
                (if 0 \<le> base \<and> base \<le> int k \<and> int k < base + 5 \<and> x + (int k - base) < width d
                 then apply_mask c (sh (font ! nat (5 * r + (int k - base)))) (buf d ! k)
                 else buf d ! k))"
proof (cases "base < int (length (buf d)) \<and> base \<ge> 0")
  case False
  then have "(if base < go_quo (width d * height d) 8 \<and> base \<ge> 0
               then char_loop font d c r sh base x 0 else Inr d) = Inr d"
    by (auto simp: buffer_size [OF wf])
  moreover have "\<not> (0 \<le> base \<and> base \<le> int k \<and> int k < base + 5)" if "k < length (buf d)" for k
    using False that by auto
  ultimately show ?thesis
    by auto
next
  case True
  then have pos: "0 < length (buf d)" by auto
  have fits: "\<forall>j. 0 \<le> j \<and> j < 5 \<and> x + j < width d \<longrightarrow> base + j < int (length (buf d))"
  proof (intro allI impI)
    fix j assume "0 \<le> j \<and> j < 5 \<and> x + j < width d"
    with char_span_fits [OF wf y _ pos order_refl, of x j] base
    show "base + j < int (length (buf d))" by simp
  qed
  from True char_loop_effect [OF order_refl _ r font fits, of c sh]
  obtain d' where "char_loop font d c r sh base x 0 = Inr d'"
    and "iface d' = iface d" "width d' = width d" "height d' = height d"
      "length (buf d') = length (buf d)"
    and "\<And>k. k < length (buf d) \<Longrightarrow>
           buf d' ! k =
             (if 0 \<le> int k - base \<and> int k - base < 5 \<and> x + (int k - base) < width d
              then apply_mask c (sh (font ! nat (5 * r + (int k - base)))) (buf d ! k)
              else buf d ! k)"
    by auto
  with True show ?thesis
    by (intro exI [of _ d']) (auto simp: buffer_size [OF wf])
qed









text \<open>
  Where the two loops of \<^verbatim>\<open>Char\<close> write, for an anchor on the panel: byte \<open>width * p + col\<close>
  is column \<open>col\<close> of page row \<open>p\<close>.
\<close>

lemma span_index_iff:
  fixes w :: int
  assumes "0 \<le> x" "x < w" "0 \<le> col" "col < w"
  shows "(w * q + x \<le> w * p + col \<and> w * p + col < w * q + x + 5 \<and>
          x + ((w * p + col) - (w * q + x)) < w)
         \<longleftrightarrow> (p = q \<and> x \<le> col \<and> col < x + 5)"
proof
  assume L: "w * q + x \<le> w * p + col \<and> w * p + col < w * q + x + 5 \<and>
          x + ((w * p + col) - (w * q + x)) < w"
  define j where "j = (w * p + col) - (w * q + x)"
  from L have j: "0 \<le> j" "j < 5" "x + j < w"
    by (auto simp: j_def)
  have "w * p + col = w * q + (x + j)"
    by (simp add: j_def)
  from page_index_inj [OF assms(3,4) _ _ this] j assms(1)
  have "p = q" "col = x + j" by auto
  with j show "p = q \<and> x \<le> col \<and> col < x + 5" by auto
next
  assume "p = q \<and> x \<le> col \<and> col < x + 5"
  with assms show "w * q + x \<le> w * p + col \<and> w * p + col < w * q + x + 5 \<and>
          x + ((w * p + col) - (w * q + x)) < w"
    by auto
qed

lemma Char_bytes:
  assumes wf: "wf_display d" and font: "640 \<le> length font" and r: "0 \<le> r" "r \<le> 127"
    and xy: "in_range d x y"
  shows "\<exists>d'. Char font d x y c r = Inr (0, d') \<and>
           width d' = width d \<and> height d' = height d \<and> length (buf d') = length (buf d) \<and>
           (\<forall>p col. 0 \<le> p \<and> p < height d div 8 \<and> 0 \<le> col \<and> col < width d \<longrightarrow>
              buf d' ! nat (width d * p + col) =
                (if p = y div 8 \<and> x \<le> col \<and> col < x + 5
                 then apply_mask c (shr (font ! nat (5 * r + (col - x))) (8 - y mod 8))
                        (buf d ! nat (width d * p + col))
                 else if p = y div 8 - 1 \<and> x \<le> col \<and> col < x + 5
                 then apply_mask c (shl (font ! nat (5 * r + (col - x))) (y mod 8))
                        (buf d ! nat (width d * p + col))
                 else buf d ! nat (width d * p + col)))"
proof -
  from xy have x: "0 \<le> x" "x < width d" and y: "0 \<le> y" "y < height d"
    by (auto simp: in_range_def)
  let ?q = "y div 8"
  let ?bufi = "width d * go_quo y 8 + x"
  have q: "go_quo y 8 = ?q" and m: "go_rem y 8 = y mod 8"
    using y by (simp_all add: go_quo_nonneg go_rem_nonneg)
  have s1: "go_uint (8 - go_rem y 8) = 8 - y mod 8" and s2: "go_uint (go_rem y 8) = y mod 8"
    by (simp_all add: m go_uint_small)
  from char_pass [OF wf font r x(2) y(2) order_refl, of c "\<lambda>g. shr g (8 - y mod 8)"]
  obtain d1 where 1: "(if ?bufi < go_quo (width d * height d) 8 \<and> ?bufi \<ge> 0
               then char_loop font d c r (\<lambda>g. shr g (8 - y mod 8)) ?bufi x 0
               else Inr d) = Inr d1"
    and same1: "width d1 = width d" "height d1 = height d" "length (buf d1) = length (buf d)"
    and all1: "\<forall>k < length (buf d).
        buf d1 ! k =
          (if 0 \<le> ?bufi \<and> ?bufi \<le> int k \<and> int k < ?bufi + 5 \<and> x + (int k - ?bufi) < width d
           then apply_mask c (shr (font ! nat (5 * r + (int k - ?bufi))) (8 - y mod 8)) (buf d ! k)
           else buf d ! k)"
    by (elim exE conjE) (rule that, assumption+)
  note eff1 = all1 [rule_format]
  from wf same1 have wf1: "wf_display d1"
    by (simp add: wf_display_def)
  let ?up = "?bufi - width d"
  have up: "?up \<le> width d1 * go_quo y 8 + x"
    using wf by (simp add: same1 wf_display_def)
  have x1: "x < width d1" and y1: "y < height d1"
    using x y by (simp_all add: same1)
  from char_pass [OF wf1 font r x1 y1 up, of c "\<lambda>g. shl g (y mod 8)"]
  obtain d2 where 2: "(if ?up < go_quo (width d1 * height d1) 8 \<and> ?up \<ge> 0
               then char_loop font d1 c r (\<lambda>g. shl g (y mod 8)) ?up x 0
               else Inr d1) = Inr d2"
    and same2': "width d2 = width d1" "height d2 = height d1" "length (buf d2) = length (buf d1)"
    and all2: "\<forall>k < length (buf d1).
        buf d2 ! k =
          (if 0 \<le> ?up \<and> ?up \<le> int k \<and> int k < ?up + 5 \<and> x + (int k - ?up) < width d1
           then apply_mask c (shl (font ! nat (5 * r + (int k - ?up))) (y mod 8)) (buf d1 ! k)
           else buf d1 ! k)"
    by (elim exE conjE) (rule that, assumption+)
  have same2: "width d2 = width d" "height d2 = height d" "length (buf d2) = length (buf d)"
    using same1 same2' by simp_all
  note eff2 = all2 [unfolded same1, rule_format]
  have guards: "\<not> (x \<ge> width d \<or> y \<ge> height d)" "\<not> (r < 0 \<or> r > 127)"
    using x y r by auto
  have C: "Char font d x y c r = Inr (0, d2)"
    unfolding Char_def Let_def s1 s2
    by (simp only: guards if_False 1 2 sum.case)
  have bytes: "buf d2 ! nat (width d * p + col) =
                (if p = y div 8 \<and> x \<le> col \<and> col < x + 5
                 then apply_mask c (shr (font ! nat (5 * r + (col - x))) (8 - y mod 8))
                        (buf d ! nat (width d * p + col))
                 else if p = y div 8 - 1 \<and> x \<le> col \<and> col < x + 5
                 then apply_mask c (shl (font ! nat (5 * r + (col - x))) (y mod 8))
                        (buf d ! nat (width d * p + col))
                 else buf d ! nat (width d * p + col))"
    if pc: "0 \<le> p \<and> p < height d div 8 \<and> 0 \<le> col \<and> col < width d" for p col
  proof -
    define k where "k = nat (width d * p + col)"
    from page_index_bound [OF wf, of col p] pc
    have kb: "0 \<le> width d * p + col" "width d * p + col < int (length (buf d))"
      by auto
    then have k: "k < length (buf d)" and ik: "int k = width d * p + col"
      by (auto simp: k_def)
    have bufi0: "0 \<le> ?bufi"
      using wf x y by (simp add: q wf_display_def)
    have c1: "(0 \<le> ?bufi \<and> ?bufi \<le> int k \<and> int k < ?bufi + 5 \<and> x + (int k - ?bufi) < width d)
        \<longleftrightarrow> (p = ?q \<and> x \<le> col \<and> col < x + 5)"
      using span_index_iff [OF x, of col ?q p] pc bufi0 by (simp add: ik q)
    have upq: "?up = width d * (?q - 1) + x"
      by (simp add: q algebra_simps)
    have up0: "0 \<le> ?up" if "p = ?q - 1"
      using that pc wf x by (simp add: upq wf_display_def)
    have c2: "(0 \<le> ?up \<and> ?up \<le> int k \<and> int k < ?up + 5 \<and> x + (int k - ?up) < width d)
        \<longleftrightarrow> (p = ?q - 1 \<and> x \<le> col \<and> col < x + 5)"
      using span_index_iff [OF x, of col "?q - 1" p] pc up0 by (auto simp add: ik upq)
    have i1: "int k - ?bufi = col - x" if "p = ?q"
      unfolding ik using that by (simp add: q)
    have i2: "int k - ?up = col - x" if "p = ?q - 1"
      unfolding ik upq using that by simp
    have e1: "buf d1 ! k =
          (if p = ?q \<and> x \<le> col \<and> col < x + 5
           then apply_mask c (shr (font ! nat (5 * r + (col - x))) (8 - y mod 8)) (buf d ! k)
           else buf d ! k)"
    proof (cases "p = ?q")
      case True
      note f = eff1 [OF k, unfolded c1]
      show ?thesis
        using f unfolding i1 [OF True] .
    next
      case False
      then show ?thesis
        using eff1 [OF k] unfolding c1 by simp
    qed
    have e2: "buf d2 ! k =
          (if p = ?q - 1 \<and> x \<le> col \<and> col < x + 5
           then apply_mask c (shl (font ! nat (5 * r + (col - x))) (y mod 8)) (buf d1 ! k)
           else buf d1 ! k)"
    proof (cases "p = ?q - 1")
      case True
      note f = eff2 [OF k, unfolded c2]
      show ?thesis
        using f unfolding i2 [OF True] .
    next
      case False
      then show ?thesis
        using eff2 [OF k] unfolding c2 by simp
    qed
    have "buf d2 ! k =
                (if p = y div 8 \<and> x \<le> col \<and> col < x + 5
                 then apply_mask c (shr (font ! nat (5 * r + (col - x))) (8 - y mod 8)) (buf d ! k)
                 else if p = y div 8 - 1 \<and> x \<le> col \<and> col < x + 5
                 then apply_mask c (shl (font ! nat (5 * r + (col - x))) (y mod 8)) (buf d ! k)
                 else buf d ! k)"
      using e1 e2 by auto
    then show ?thesis
      unfolding k_def .
  qed
  from C same2 bytes show ?thesis
    by blast
qed


lemma bit_apply_mask:
  "bit (apply_mask c m (v :: byte)) n = (if bit m n then c = White else bit v n)"
  by (auto simp: apply_mask_def bit_or_iff bit_and_iff bit_not_iff dest: bit_imp_possible_bit)

lemma bit_shr: "0 \<le> s \<Longrightarrow> bit (shr (g :: byte) s) n = bit g (nat s + n)"
  by (auto simp: shr_def bit_drop_bit_eq dest: bit_imp_le_length)

lemma bit_shl: "0 \<le> s \<Longrightarrow> bit (shl (g :: byte) s) n = (nat s \<le> n \<and> n < 8 \<and> bit g (n - nat s))"
  by (auto simp: shl_def bit_push_bit_iff dest: bit_imp_le_length)

lemma Char_pixels:
  assumes wf: "wf_display d" and font: "640 \<le> length font" and r: "0 \<le> r" "r \<le> 127"
    and xy: "in_range d x y"
  shows "\<exists>d'. Char font d x y c r = Inr (0, d') \<and>
           (\<forall>px py. in_range d px py \<longrightarrow>
              pixel d' px py =
                (if x \<le> px \<and> px < x + 5 \<and> y - 8 \<le> py \<and> py < y \<and>
                    bit (font ! nat (5 * r + (px - x))) (nat (py - (y - 8)))
                 then c = White else pixel d px py))"
proof -
  from Char_bytes [OF wf font r xy, of c]
  obtain d' where C: "Char font d x y c r = Inr (0, d')"
    and same: "width d' = width d" "height d' = height d" "length (buf d') = length (buf d)"
    and all: "\<forall>p col. 0 \<le> p \<and> p < height d div 8 \<and> 0 \<le> col \<and> col < width d \<longrightarrow>
              buf d' ! nat (width d * p + col) =
                (if p = y div 8 \<and> x \<le> col \<and> col < x + 5
                 then apply_mask c (shr (font ! nat (5 * r + (col - x))) (8 - y mod 8))
                        (buf d ! nat (width d * p + col))
                 else if p = y div 8 - 1 \<and> x \<le> col \<and> col < x + 5
                 then apply_mask c (shl (font ! nat (5 * r + (col - x))) (y mod 8))
                        (buf d ! nat (width d * p + col))
                 else buf d ! nat (width d * p + col))"
    by (elim exE conjE) (rule that, assumption+)
  have "pixel d' px py =
          (if x \<le> px \<and> px < x + 5 \<and> y - 8 \<le> py \<and> py < y \<and>
              bit (font ! nat (5 * r + (px - x))) (nat (py - (y - 8)))
           then c = White else pixel d px py)" if R: "in_range d px py" for px py
  proof -
    define p n q m where "p = py div 8" and "n = py mod 8" and "q = y div 8" and "m = y mod 8"
    define g where "g = font ! nat (5 * r + (px - x))"
    define v where "v = buf d ! nat (width d * p + px)"
    have py: "py = 8 * p + n" "0 \<le> n" "n < 8" and y: "y = 8 * q + m" "0 \<le> m" "m < 8"
      by (simp_all add: p_def n_def q_def m_def)
    from R wf have pb: "0 \<le> p \<and> p < height d div 8 \<and> 0 \<le> px \<and> px < width d"
      by (auto simp: in_range_def p_def intro: page_of_row)
    note B = all [rule_format, OF pb, folded q_def m_def g_def v_def]
    have old: "pixel d px py = bit v (nat n)"
      by (simp add: pixel_def v_def p_def n_def)
    have new: "pixel d' px py = bit (buf d' ! nat (width d * p + px)) (nat n)"
      by (simp add: pixel_def same p_def n_def)
    show ?thesis
    proof (cases "x \<le> px \<and> px < x + 5")
      case False
      with B new old show ?thesis by auto
    next
      case span: True
      show ?thesis
      proof (cases "p = q")
        case True
        with B span have "buf d' ! nat (width d * p + px) = apply_mask c (shr g (8 - m)) v"
          by simp
        then have "pixel d' px py = (if bit g (nat (8 - m) + nat n) then c = White else bit v (nat n))"
          using y by (simp add: new bit_apply_mask bit_shr)
        moreover have "bit g (nat (8 - m) + nat n) \<longleftrightarrow>
            (y - 8 \<le> py \<and> py < y \<and> bit g (nat (py - (y - 8))))"
        proof (cases "n < m")
          case lt: True
          then have "nat (py - (y - 8)) = nat (8 - m) + nat n"
            using py y True by simp
          with lt py y True show ?thesis by simp
        next
          case ge: False
          then have "8 \<le> nat (8 - m) + nat n"
            using py y by simp
          then have "\<not> bit g (nat (8 - m) + nat n)"
            by (auto dest: bit_imp_le_length)
          with ge py y True show ?thesis by simp
        qed
        ultimately show ?thesis
          using span old by (simp add: g_def)
      next
        case nq: False
        show ?thesis
        proof (cases "p = q - 1")
          case True
          with B span nq have "buf d' ! nat (width d * p + px) = apply_mask c (shl g m) v"
            by simp
          then have "pixel d' px py =
              (if nat m \<le> nat n \<and> nat n < 8 \<and> bit g (nat n - nat m) then c = White else bit v (nat n))"
            using y by (simp add: new bit_apply_mask bit_shl)
          moreover have "(nat m \<le> nat n \<and> nat n < 8 \<and> bit g (nat n - nat m)) \<longleftrightarrow>
              (y - 8 \<le> py \<and> py < y \<and> bit g (nat (py - (y - 8))))"
          proof (cases "m \<le> n")
            case le: True
            then have "nat (py - (y - 8)) = nat n - nat m"
              using py y True by simp
            moreover from le py y have "nat m \<le> nat n" "nat n < 8" by simp_all
            ultimately show ?thesis
              using le py y True by simp
          next
            case gt: False
            with py y have "\<not> nat m \<le> nat n" by simp
            with gt py y True show ?thesis by simp
          qed
          ultimately show ?thesis
            using span old by (simp add: g_def)
        next
          case False
          with nq py y have "\<not> (y - 8 \<le> py \<and> py < y)" by auto
          with B nq False new old show ?thesis by auto
        qed
      qed
    qed
  qed
  with C show ?thesis by blast
qed


text \<open>
  C2, as stated, fails.  With glyph columns \<^verbatim>\<open>0xa5\<close> on blank displays 8 pixels wide:
  at \<open>y = 8\<close>, a multiple of 8, the page row that contains \<open>y\<close> (bytes 8 to 15) is left as
  it was and the glyph is in the page row above it (bytes 0 to 4); at \<open>y = 11\<close> the page row
  below the anchor (bytes 16 to 23) receives nothing, and the columns shifted left by 3,
  \<^verbatim>\<open>0x28\<close>, are in the page row above the anchor.
\<close>

theorem Char_ignores_anchor_page_when_aligned:
  "Char font_a5 (blank 1 8 16) 0 8 White 65 =
     Inr (0, \<lparr>iface = 1, width = 8, height = 16,
               buf = [0xa5, 0xa5, 0xa5, 0xa5, 0xa5, 0, 0, 0,
                      0, 0, 0, 0, 0, 0, 0, 0]\<rparr>) \<and>
   Char font_a5 (blank 1 8 24) 0 11 White 65 =
     Inr (0, \<lparr>iface = 1, width = 8, height = 24,
               buf = [0x28, 0x28, 0x28, 0x28, 0x28, 0, 0, 0,
                      0x05, 0x05, 0x05, 0x05, 0x05, 0, 0, 0,
                      0, 0, 0, 0, 0, 0, 0, 0]\<rparr>)"
  by code_simp

text \<open>
  C2, amended.  For an anchor on the panel and a character code in \<open>[0, 127]\<close>, \<^verbatim>\<open>Char\<close>
  returns 0 and changes the bytes of at most two page rows, in the columns \<open>x\<close> to \<open>x + 4\<close>
  that are on the panel: the page row \<open>y div 8\<close> that contains the anchor receives the glyph
  columns shifted right by \<open>8 - y mod 8\<close>, and the page row above it, \<open>y div 8 - 1\<close>, when
  there is one, receives them shifted left by \<open>y mod 8\<close>.  When \<open>y\<close> is a multiple of 8 only
  the page row above the anchor's changes.  In pixels: glyph row \<open>n\<close> of column \<open>i\<close> lands on
  \<open>(x + i, y - 8 + n)\<close>, so the two writes together are the glyph on the rows \<open>y - 8\<close> to
  \<open>y - 1\<close>; a glyph bit that is set gives the pixel the colour, every other pixel keeps its
  state.  Each write is an OR (white) or an AND-NOT (any other colour) of the mask.
\<close>

theorem Char_splits_glyph_upwards:
  assumes wf: "wf_display d" and font: "640 \<le> length font" and r: "0 \<le> r" "r \<le> 127"
    and xy: "in_range d x y"
  shows "\<exists>d'. Char font d x y c r = Inr (0, d') \<and>
           (\<forall>p col. 0 \<le> p \<and> p < height d div 8 \<and> 0 \<le> col \<and> col < width d \<longrightarrow>
              buf d' ! nat (width d * p + col) =
                (if p = y div 8 \<and> x \<le> col \<and> col < x + 5
                 then apply_mask c (shr (font ! nat (5 * r + (col - x))) (8 - y mod 8))
                        (buf d ! nat (width d * p + col))
                 else if p = y div 8 - 1 \<and> x \<le> col \<and> col < x + 5
                 then apply_mask c (shl (font ! nat (5 * r + (col - x))) (y mod 8))
                        (buf d ! nat (width d * p + col))
                 else buf d ! nat (width d * p + col))) \<and>
           (y mod 8 = 0 \<longrightarrow>
              (\<forall>p col. 0 \<le> p \<and> p < height d div 8 \<and> 0 \<le> col \<and> col < width d \<and> p \<noteq> y div 8 - 1 \<longrightarrow>
                 buf d' ! nat (width d * p + col) = buf d ! nat (width d * p + col))) \<and>
           (\<forall>px py. in_range d px py \<longrightarrow>
              pixel d' px py =
                (if x \<le> px \<and> px < x + 5 \<and> y - 8 \<le> py \<and> py < y \<and>
                    bit (font ! nat (5 * r + (px - x))) (nat (py - (y - 8)))
                 then c = White else pixel d px py)) \<and>
           (\<forall>m v n. bit (apply_mask c m v) n = (if bit m n then c = White else bit v n))"
proof -
  from Char_bytes [OF wf font r xy, of c]
  obtain d' where C: "Char font d x y c r = Inr (0, d')"
    and bytes: "\<forall>p col. 0 \<le> p \<and> p < height d div 8 \<and> 0 \<le> col \<and> col < width d \<longrightarrow>
              buf d' ! nat (width d * p + col) =
                (if p = y div 8 \<and> x \<le> col \<and> col < x + 5
                 then apply_mask c (shr (font ! nat (5 * r + (col - x))) (8 - y mod 8))
                        (buf d ! nat (width d * p + col))
                 else if p = y div 8 - 1 \<and> x \<le> col \<and> col < x + 5
                 then apply_mask c (shl (font ! nat (5 * r + (col - x))) (y mod 8))
                        (buf d ! nat (width d * p + col))
                 else buf d ! nat (width d * p + col))"
    by (elim exE conjE) (rule that, assumption+)
  from Char_pixels [OF wf font r xy, of c] C
  have pixels: "\<forall>px py. in_range d px py \<longrightarrow>
              pixel d' px py =
                (if x \<le> px \<and> px < x + 5 \<and> y - 8 \<le> py \<and> py < y \<and>
                    bit (font ! nat (5 * r + (px - x))) (nat (py - (y - 8)))
                 then c = White else pixel d px py)"
    by simp
  have aligned: "buf d' ! nat (width d * p + col) = buf d ! nat (width d * p + col)"
    if "y mod 8 = 0" and "0 \<le> p \<and> p < height d div 8 \<and> 0 \<le> col \<and> col < width d \<and> p \<noteq> y div 8 - 1"
    for p col
  proof -
    have "apply_mask c (shr g (8 - y mod 8)) v = v" for g v
      using that(1) by (simp add: shr_def apply_mask_def)
    with bytes [rule_format, of p col] that(2) show ?thesis
      by simp
  qed
  have aligned_all: "y mod 8 = 0 \<longrightarrow>
      (\<forall>p col. 0 \<le> p \<and> p < height d div 8 \<and> 0 \<le> col \<and> col < width d \<and> p \<noteq> y div 8 - 1 \<longrightarrow>
         buf d' ! nat (width d * p + col) = buf d ! nat (width d * p + col))"
    by (intro impI allI) (rule aligned)
  have masks: "\<forall>m v n. bit (apply_mask c m v) n = (if bit m n then c = White else bit v n)"
    by (simp add: bit_apply_mask)
  show ?thesis
    by (intro exI [of _ d'] conjI) (rule C bytes aligned_all pixels masks)+
qed

theorem Char_splits_glyph_upwards_witness:
  "wf_display (blank 1 8 24) \<and> 640 \<le> length font_a5 \<and> in_range (blank 1 8 24) 0 11 \<and>
   (\<exists>d'. Char font_a5 (blank 1 8 24) 0 11 White 65 = Inr (0, d') \<and>
      buf d' ! nat (8 * 1 + 0) = shr (font_a5 ! nat (5 * 65)) 5 \<and>
      buf d' ! nat (8 * 0 + 0) = shl (font_a5 ! nat (5 * 65)) 3)"
proof -
  have h: "wf_display (blank 1 8 24)"
    by (simp add: wf_display_def blank_def go_quo_def)
  have f: "640 \<le> length font_a5"
    by (simp add: font_a5_def)
  have a: "in_range (blank 1 8 24) 0 11"
    by (simp add: in_range_def blank_def)
  from Char_splits_glyph_upwards [OF h f _ _ a, of 65 White]
  obtain d' where C: "Char font_a5 (blank 1 8 24) 0 11 White 65 = Inr (0, d')"
    and bytes: "\<forall>p col. 0 \<le> p \<and> p < height (blank 1 8 24) div 8 \<and> 0 \<le> col \<and> col < width (blank 1 8 24) \<longrightarrow>
              buf d' ! nat (width (blank 1 8 24) * p + col) =
                (if p = 11 div 8 \<and> 0 \<le> col \<and> col < 0 + 5
                 then apply_mask White (shr (font_a5 ! nat (5 * 65 + (col - 0))) (8 - 11 mod 8))
                        (buf (blank 1 8 24) ! nat (width (blank 1 8 24) * p + col))
                 else if p = 11 div 8 - 1 \<and> 0 \<le> col \<and> col < 0 + 5
                 then apply_mask White (shl (font_a5 ! nat (5 * 65 + (col - 0))) (11 mod 8))
                        (buf (blank 1 8 24) ! nat (width (blank 1 8 24) * p + col))
                 else buf (blank 1 8 24) ! nat (width (blank 1 8 24) * p + col))"
    by auto
  from bytes [rule_format, of 1 0] bytes [rule_format, of 0 0]
  have "buf d' ! nat (8 * 1 + 0) = shr (font_a5 ! nat (5 * 65)) 5"
    and "buf d' ! nat (8 * 0 + 0) = shl (font_a5 ! nat (5 * 65)) 3"
    by (simp_all add: blank_def go_quo_def apply_mask_def)
  with C h f a show ?thesis by blast
qed

section \<open>Flushing the frame\<close>

text \<open>
  The loop of \<^verbatim>\<open>Draw\<close> from chunk \<open>k\<close> on: it sends the whole chunks that are left, returns
  the first error of the bus, and after the last whole chunk either is done or, when bytes
  are left over, slices past the end of the buffer.
\<close>

lemma draw_loop_run:
  assumes i2c: "iface d = IFACE_I2C" and k: "32 * k \<le> length (buf d)"
  shows "draw_loop w d tr (int (32 * k)) =
           (case send_frames w tr (data_frames (buf d) k (length (buf d) div 32)) of
              (Some e, tr') \<Rightarrow> (Inr (Some e), d, tr')
            | (None, tr') \<Rightarrow>
                if length (buf d) mod 32 = 0 then (Inr None, d, tr')
                else (Inl SliceBoundsOutOfRange, d, tr'))"
  using k
proof (induction "length (buf d) div 32 - k" arbitrary: k tr)
  case 0
  then have kn: "k = length (buf d) div 32" by auto
  then have nil: "data_frames (buf d) k (length (buf d) div 32) = []"
    by (simp add: data_frames_def)
  show ?case
  proof (cases "length (buf d) mod 32 = 0")
    case True
    with kn have "32 * k = length (buf d)" by auto
    then have "\<not> int (32 * k) < int (length (buf d))" by simp
    then have "draw_loop w d tr (int (32 * k)) = (Inr None, d, tr)"
      by (subst draw_loop.simps) (simp only: if_False)
    with True nil show ?thesis by simp
  next
    case False
    with kn have lt: "int (32 * k) < int (length (buf d))"
      and over: "\<not> int (32 * k) + 32 \<le> int (length (buf d))"
      by presburger+
    from over have "go_slice (buf d) (int (32 * k)) (int (32 * k) + 32) = Inl SliceBoundsOutOfRange"
      by (simp add: go_slice_def)
    with lt have "draw_loop w d tr (int (32 * k)) = (Inl SliceBoundsOutOfRange, d, tr)"
      by (subst draw_loop.simps) (simp only: if_True sum.case)
    with False nil show ?thesis by simp
  qed
next
  case (Suc m)
  let ?n = "length (buf d) div 32"
  let ?f = "WriteI2C 0x40 (chunk (buf d) k)"
  from Suc.hyps(2) have kn: "k < ?n" by simp
  then have fits: "32 * (k + 1) \<le> length (buf d)" by auto
  then have lt: "int (32 * k) < int (length (buf d))" by simp
  have sl: "go_slice (buf d) (int (32 * k)) (int (32 * k) + 32) = Inr (chunk (buf d) k)"
  proof -
    have "nat (int (32 * k)) = 32 * k" "nat (int (32 * k) + 32 - int (32 * k)) = 32"
      by simp_all
    moreover have "int (32 * k) + 32 \<le> int (length (buf d))"
      using fits by simp
    ultimately show ?thesis
      unfolding go_slice_def chunk_def by (simp del: of_nat_mult of_nat_numeral)
  qed
  have len: "length (chunk (buf d) k) = 32"
    using fits by (simp add: chunk_def)
  have wd: "WriteData w d (chunk (buf d) k) tr = (w tr ?f, d, tr @ [?f])"
    by (simp add: WriteData_def i2c io_def len)
  have frames: "data_frames (buf d) k ?n = ?f # data_frames (buf d) (k + 1) ?n"
    using kn by (simp add: data_frames_def upt_conv_Cons)
  show ?case
  proof (cases "w tr ?f")
    case (Some e)
    have "draw_loop w d tr (int (32 * k)) = (Inr (Some e), d, tr @ [?f])"
      by (subst draw_loop.simps) (simp only: lt if_True sl sum.case wd Some prod.case option.case)
    then show ?thesis
      by (simp add: frames Some)
  next
    case None
    have idx: "int (32 * k) + 32 = int (32 * (k + 1))"
      by simp
    have "draw_loop w d tr (int (32 * k)) = draw_loop w d (tr @ [?f]) (int (32 * (k + 1)))"
      by (subst draw_loop.simps)
        (simp only: lt if_True idx sl [unfolded idx] sum.case wd None prod.case option.case)
    also have "\<dots> = (case send_frames w (tr @ [?f]) (data_frames (buf d) (k + 1) ?n) of
              (Some e, tr') \<Rightarrow> (Inr (Some e), d, tr')
            | (None, tr') \<Rightarrow>
                if length (buf d) mod 32 = 0 then (Inr None, d, tr')
                else (Inl SliceBoundsOutOfRange, d, tr'))"
      using Suc.hyps(2) by (intro Suc.hyps(1) fits) simp
    finally show ?thesis
      by (simp add: frames None)
  qed
qed

lemma Draw_keeps_display: "fst (snd (Draw w d tr)) = d"
proof (cases "iface d = IFACE_I2C")
  case False
  then show ?thesis by (simp add: Draw_def)
next
  case True
  from draw_loop_run [OF True, of 0 w tr] True show ?thesis
    by (simp add: Draw_def split: prod.splits option.splits)
qed

lemma send_frames_quiet: "send_frames quiet tr fs = (None, tr @ fs)"
  by (induction fs arbitrary: tr) (simp_all add: quiet_def)

lemma concat_chunks: "length b = 32 * n \<Longrightarrow> concat (map (chunk b) [0..<n]) = b"
proof (induction n arbitrary: b rule: nat.induct)
  case zero
  then show ?case by simp
next
  case (Suc n)
  have "concat (map (chunk b) [0..<n]) = take (32 * n) b"
  proof -
    have "chunk b j = chunk (take (32 * n) b) j" if "j < n" for j
    proof -
      from that have "32 * j + 32 \<le> 32 * n" by simp
      then show ?thesis
        by (simp add: chunk_def drop_take take_take min_def)
    qed
    then have A: "map (chunk b) [0..<n] = map (chunk (take (32 * n) b)) [0..<n]"
      by simp
    have "length (take (32 * n) b) = 32 * n"
      using Suc.prems by simp
    then have B: "concat (map (chunk (take (32 * n) b)) [0..<n]) = take (32 * n) b"
      by (rule Suc.IH)
    show ?thesis
      by (simp only: A B)
  qed
  moreover have "chunk b n = drop (32 * n) b"
    using Suc.prems by (simp add: chunk_def)
  ultimately show ?case
    by simp
qed


lemma send_frames_all_ok:
  "(\<forall>i < length fs. w (tr @ take i fs) (fs ! i) = None) \<Longrightarrow> send_frames w tr fs = (None, tr @ fs)"
proof (induction fs arbitrary: tr)
  case Nil
  then show ?case by simp
next
  case (Cons f fs)
  from Cons.prems [rule_format, of 0] have f: "w tr f = None" by simp
  have "\<forall>i < length fs. w ((tr @ [f]) @ take i fs) (fs ! i) = None"
  proof (intro allI impI)
    fix i assume "i < length fs"
    with Cons.prems [rule_format, of "Suc i"] show "w ((tr @ [f]) @ take i fs) (fs ! i) = None"
      by simp
  qed
  from Cons.IH [OF this] f show ?case by simp
qed

lemma send_frames_first_error:
  "j < length fs \<Longrightarrow> (\<forall>i < j. w (tr @ take i fs) (fs ! i) = None) \<Longrightarrow>
     w (tr @ take j fs) (fs ! j) = Some e \<Longrightarrow>
     send_frames w tr fs = (Some e, tr @ take (Suc j) fs)"
proof (induction fs arbitrary: tr j)
  case Nil
  then show ?case by simp
next
  case (Cons f fs)
  show ?case
  proof (cases j)
    case 0
    with Cons.prems show ?thesis by simp
  next
    case (Suc j')
    from Cons.prems(2) [rule_format, of 0] Suc have f: "w tr f = None" by simp
    have ok: "\<forall>i < j'. w ((tr @ [f]) @ take i fs) (fs ! i) = None"
    proof (intro allI impI)
      fix i assume "i < j'"
      with Cons.prems(2) [rule_format, of "Suc i"] Suc
      show "w ((tr @ [f]) @ take i fs) (fs ! i) = None"
        by simp
    qed
    from Cons.prems Suc have "j' < length fs" "w ((tr @ [f]) @ take j' fs) (fs ! j') = Some e"
      by simp_all
    from Cons.IH [OF this(1) ok this(2)] f Suc show ?thesis by simp
  qed
qed

lemma data_frames_nth:
  "j < n \<Longrightarrow> data_frames b 0 n ! j = WriteI2C 0x40 (chunk b j)"
  by (simp add: data_frames_def)

lemma chunk_length: "32 * j + 32 \<le> length b \<Longrightarrow> length (chunk b j) = 32"
  by (simp add: chunk_def)

text \<open>
  C6, amended.  For a bus-based display whose buffer is \<open>n\<close> chunks of 32 bytes, \<^verbatim>\<open>Draw\<close>
  sends the \<open>n\<close> chunks as data frames of 32 bytes each, in increasing order and with
  nothing in between; the chunks together are the buffer.  If no write fails it returns
  \<^verbatim>\<open>nil\<close> after \<open>n\<close> writes; if write \<open>j\<close> is the first to fail it returns that error after
  \<open>j + 1\<close> writes.  The display is the same afterwards, for every display and every outcome.
\<close>

theorem Draw_sends_whole_frame_in_chunks:
  assumes i2c: "iface d = IFACE_I2C" and len: "length (buf d) = 32 * n"
  shows "Draw w d tr =
           (case send_frames w tr (data_frames (buf d) 0 n) of (err, tr') \<Rightarrow> (Inr err, d, tr')) \<and>
         ((\<forall>i < n. w (tr @ take i (data_frames (buf d) 0 n)) (data_frames (buf d) 0 n ! i) = None) \<longrightarrow>
            Draw w d tr = (Inr None, d, tr @ data_frames (buf d) 0 n)) \<and>
         (\<forall>j e. j < n \<and>
            (\<forall>i < j. w (tr @ take i (data_frames (buf d) 0 n)) (data_frames (buf d) 0 n ! i) = None) \<and>
            w (tr @ take j (data_frames (buf d) 0 n)) (data_frames (buf d) 0 n ! j) = Some e \<longrightarrow>
            Draw w d tr = (Inr (Some e), d, tr @ take (Suc j) (data_frames (buf d) 0 n))) \<and>
         length (data_frames (buf d) 0 n) = n \<and>
         (\<forall>j < n. data_frames (buf d) 0 n ! j = WriteI2C 0x40 (chunk (buf d) j) \<and>
                   length (chunk (buf d) j) = 32) \<and>
         concat (map (chunk (buf d)) [0..<n]) = buf d \<and>
         (\<forall>w' d' tr'. fst (snd (Draw w' d' tr')) = d')"
proof -
  let ?fs = "data_frames (buf d) 0 n"
  have n: "length (buf d) div 32 = n" and m: "length (buf d) mod 32 = 0"
    using len by simp_all
  from draw_loop_run [OF i2c, of 0 w tr]
  have run: "Draw w d tr = (case send_frames w tr ?fs of (err, tr') \<Rightarrow> (Inr err, d, tr'))"
    by (simp add: Draw_def i2c n m split: prod.splits option.splits)
  have lfs: "length ?fs = n"
    by (simp add: data_frames_def)
  have ok: "Draw w d tr = (Inr None, d, tr @ ?fs)"
    if "\<forall>i < n. w (tr @ take i ?fs) (?fs ! i) = None"
    using send_frames_all_ok [of ?fs w tr] that by (simp add: run lfs)
  have err: "Draw w d tr = (Inr (Some e), d, tr @ take (Suc j) ?fs)"
    if "j < n \<and> (\<forall>i < j. w (tr @ take i ?fs) (?fs ! i) = None) \<and>
        w (tr @ take j ?fs) (?fs ! j) = Some e" for j e
    using send_frames_first_error [of j ?fs w tr e] that by (simp add: run lfs)
  have fr: "?fs ! j = WriteI2C 0x40 (chunk (buf d) j) \<and> length (chunk (buf d) j) = 32"
    if "j < n" for j
  proof -
    from that have "32 * j + 32 \<le> length (buf d)" by (simp add: len)
    with that show ?thesis by (simp add: data_frames_nth chunk_length)
  qed
  from run ok err lfs fr concat_chunks [OF len] Draw_keeps_display show ?thesis
    by (intro conjI allI impI) (assumption | blast)+
qed

theorem Draw_sends_whole_frame_in_chunks_witness:
  "iface (blank IFACE_I2C 128 64) = IFACE_I2C \<and> length (buf (blank IFACE_I2C 128 64)) = 32 * 32 \<and>
   Draw quiet (blank IFACE_I2C 128 64) [] =
     (Inr None, blank IFACE_I2C 128 64, data_frames (buf (blank IFACE_I2C 128 64)) 0 32) \<and>
   length (data_frames (buf (blank IFACE_I2C 128 64)) 0 32) = 32"
proof -
  have h: "iface (blank IFACE_I2C 128 64) = IFACE_I2C"
    by (simp add: blank_def)
  have l: "length (buf (blank IFACE_I2C 128 64)) = 32 * 32"
    by (simp add: blank_def go_quo_def)
  from Draw_sends_whole_frame_in_chunks [OF h l, of quiet "[]"] h l show ?thesis
    by (simp add: send_frames_quiet)
qed

text \<open>
  C6, as stated for every bus-based display, fails on a blank 8x8 display: its buffer has
  8 bytes, \<^verbatim>\<open>buf[0:32]\<close> panics and nothing is sent.
\<close>

theorem Draw_faults_on_small_display:
  "Draw quiet (blank IFACE_I2C 8 8) [] = (Inl SliceBoundsOutOfRange, blank IFACE_I2C 8 8, [])"
  by code_simp


text \<open>
  C10, as stated for any display, fails in two ways: an 8x8 display that is not bus-based
  (its buffer has 8 bytes) is not touched by \<^verbatim>\<open>Draw\<close>, which returns \<^verbatim>\<open>nil\<close>; and on a
  bus-based 8x40 display (40 bytes) whose first write fails, \<^verbatim>\<open>Draw\<close> returns that error
  and never reaches the last chunk.
\<close>

theorem Draw_without_fault_off_the_bus_or_on_error:
  "Draw quiet (blank IFACE_SPI 8 8) [] = (Inr None, blank IFACE_SPI 8 8, []) \<and>
   length (buf (blank IFACE_SPI 8 8)) = 8 \<and>
   Draw bus_down (blank IFACE_I2C 8 40) [] =
     (Inr (Some ''write /dev/i2c-1: input/output error''), blank IFACE_I2C 8 40,
      [WriteI2C 0x40 (replicate 32 0)]) \<and>
   length (buf (blank IFACE_I2C 8 40)) = 40"
  by code_simp

text \<open>
  C10, amended.  For a bus-based display whose buffer length is not a multiple of 32,
  \<^verbatim>\<open>Draw\<close> sends the whole chunks in order; if one of these writes fails it returns that
  error, and if none fails it panics with a slice-bounds error on the last, partial chunk.
  So a bus-based \<^verbatim>\<open>Draw\<close> returns \<^verbatim>\<open>nil\<close> only when the buffer length is a multiple of 32,
  and then it never faults.
\<close>

theorem Draw_faults_on_partial_last_chunk:
  assumes i2c: "iface d = IFACE_I2C"
  shows "(length (buf d) mod 32 \<noteq> 0 \<longrightarrow>
            Draw w d tr =
              (case send_frames w tr (data_frames (buf d) 0 (length (buf d) div 32)) of
                 (Some e, tr') \<Rightarrow> (Inr (Some e), d, tr')
               | (None, tr') \<Rightarrow> (Inl SliceBoundsOutOfRange, d, tr'))) \<and>
         (length (buf d) mod 32 \<noteq> 0 \<and>
          (\<forall>i < length (buf d) div 32.
             w (tr @ take i (data_frames (buf d) 0 (length (buf d) div 32)))
               (data_frames (buf d) 0 (length (buf d) div 32) ! i) = None) \<longrightarrow>
            Draw w d tr =
              (Inl SliceBoundsOutOfRange, d, tr @ data_frames (buf d) 0 (length (buf d) div 32))) \<and>
         (fst (Draw w d tr) = Inr None \<longrightarrow> length (buf d) mod 32 = 0) \<and>
         (length (buf d) mod 32 = 0 \<longrightarrow> (\<forall>f. fst (Draw w d tr) \<noteq> Inl f))"
proof -
  let ?fs = "data_frames (buf d) 0 (length (buf d) div 32)"
  from draw_loop_run [OF i2c, of 0 w tr]
  have run: "Draw w d tr =
      (case send_frames w tr ?fs of
         (Some e, tr') \<Rightarrow> (Inr (Some e), d, tr')
       | (None, tr') \<Rightarrow>
           if length (buf d) mod 32 = 0 then (Inr None, d, tr')
           else (Inl SliceBoundsOutOfRange, d, tr'))"
    by (simp add: Draw_def i2c)
  have lfs: "length ?fs = length (buf d) div 32"
    by (simp add: data_frames_def)
  have 1: "Draw w d tr =
      (case send_frames w tr ?fs of
         (Some e, tr') \<Rightarrow> (Inr (Some e), d, tr')
       | (None, tr') \<Rightarrow> (Inl SliceBoundsOutOfRange, d, tr'))"
    if "length (buf d) mod 32 \<noteq> 0"
    using that by (simp add: run split: prod.splits option.splits)
  have 2: "Draw w d tr = (Inl SliceBoundsOutOfRange, d, tr @ ?fs)"
    if "length (buf d) mod 32 \<noteq> 0 \<and> (\<forall>i < length (buf d) div 32. w (tr @ take i ?fs) (?fs ! i) = None)"
    using send_frames_all_ok [of ?fs w tr] that by (simp add: 1 lfs)
  have 3: "length (buf d) mod 32 = 0" if "fst (Draw w d tr) = Inr None"
    using that by (auto simp: run split: prod.splits option.splits if_splits)
  have 4: "fst (Draw w d tr) \<noteq> Inl f" if "length (buf d) mod 32 = 0" for f
    using that by (auto simp: run split: prod.splits option.splits)
  from 1 2 3 4 show ?thesis
    by (intro conjI allI impI) (assumption | blast)+
qed

theorem Draw_faults_on_partial_last_chunk_witness:
  "iface (blank IFACE_I2C 8 8) = IFACE_I2C \<and> length (buf (blank IFACE_I2C 8 8)) mod 32 \<noteq> 0 \<and>
   Draw quiet (blank IFACE_I2C 8 8) [] = (Inl SliceBoundsOutOfRange, blank IFACE_I2C 8 8, [])"
proof -
  have h: "iface (blank IFACE_I2C 8 8) = IFACE_I2C"
    by (simp add: blank_def)
  have l: "length (buf (blank IFACE_I2C 8 8)) = 8"
    by (simp add: blank_def go_quo_def)
  from Draw_faults_on_partial_last_chunk [OF h, of quiet "[]"] h l show ?thesis
    by (simp add: data_frames_def)
qed

end
